theory Spec2Isabelle
  imports Complex_Main "HOL-Library.List_Lexorder" "HOL-Library.Char_ord"
begin

section \<open>Python values, failures and containers\<close>

text \<open>
  The program is \<^verbatim>\<open>hmmlearn.py\<close>: \<^verbatim>\<open>validate_input\<close> and \<^verbatim>\<open>viterbi\<close>.
  A raised exception is a value \<open>Inl e\<close>; a normal return is \<open>Inr x\<close>.
  A failing \<^verbatim>\<open>assert c, msg\<close> raises \<open>AssertionError msg\<close>; a missing dictionary
  key raises \<open>KeyError\<close>, an index out of range \<open>IndexError\<close>, and \<^verbatim>\<open>max\<close> of an
  empty iterable \<open>ValueError\<close>. \<open>TypeError\<close> stands for the use of an object of the
  wrong kind; it occurs only in the model over a store of objects further down, since
  the types of the first model exclude such arguments.

  Probabilities are Python floats. The first model takes them as exact reals, so
  rounding is not part of it; the model over binary floating-point numbers further
  down rounds every product as Python does, and the optimality of the result is
  stated there. State labels are any linearly ordered type (Python compares
  them inside tuples); strings are ordered lexicographically by character code.
  The \<^verbatim>\<open>print\<close> calls only read values that were just stored, so they add no
  failure and are left out.
\<close>

datatype error = AssertionError string | KeyError | IndexError | ValueError | TypeError

text \<open>An argument that Python may or may not accept as \<^verbatim>\<open>(list, tuple)\<close>.\<close>

datatype 'a py_seq = PyTuple "'a list" | PyList "'a list" | PyOther

fun is_list_or_tuple :: "'a py_seq \<Rightarrow> bool" where
  "is_list_or_tuple (PyTuple xs) = True"
| "is_list_or_tuple (PyList xs) = True"
| "is_list_or_tuple PyOther = False"

text \<open>The elements of a list or tuple. \<open>PyOther\<close> is rejected by the first two
  assertions before anything iterates over it.\<close>

fun items :: "'a py_seq \<Rightarrow> 'a list" where
  "items (PyTuple xs) = xs"
| "items (PyList xs) = xs"
| "items PyOther = []"

definition and_then :: "error + 'a \<Rightarrow> ('a \<Rightarrow> error + 'b) \<Rightarrow> error + 'b" where
  "and_then r f = (case r of Inl e \<Rightarrow> Inl e | Inr x \<Rightarrow> f x)"

text \<open>\<^verbatim>\<open>d[k]\<close> on a dictionary.\<close>

definition subscript :: "('k \<rightharpoonup> 'v) \<Rightarrow> 'k \<Rightarrow> error + 'v" where
  "subscript d k = (case d k of None \<Rightarrow> Inl KeyError | Some v \<Rightarrow> Inr v)"

text \<open>\<^verbatim>\<open>xs[i]\<close> on a list or tuple, for an index \<open>i \<ge> 0\<close>.\<close>

definition item :: "'a list \<Rightarrow> nat \<Rightarrow> error + 'a" where
  "item xs i = (if i < length xs then Inr (xs ! i) else Inl IndexError)"

text \<open>\<^verbatim>\<open>xs[-1]\<close>.\<close>

definition last_item :: "'a list \<Rightarrow> error + 'a" where
  "last_item xs = (if xs = [] then Inl IndexError else Inr (last xs))"

definition py_assert :: "bool \<Rightarrow> string \<Rightarrow> error + unit" where
  "py_assert c msg = (if c then Inr () else Inl (AssertionError msg))"

text \<open>\<^verbatim>\<open>all(f(x) for x in xs)\<close>: stops at the first false element, and at the
  first exception.\<close>

fun py_all :: "('a \<Rightarrow> error + bool) \<Rightarrow> 'a list \<Rightarrow> error + bool" where
  "py_all f [] = Inr True"
| "py_all f (x # xs) =
     (case f x of Inl e \<Rightarrow> Inl e | Inr b \<Rightarrow> if b then py_all f xs else Inr False)"

text \<open>The elements a generator expression yields, up to the first exception.\<close>

fun generate :: "('a \<Rightarrow> error + 'b) \<Rightarrow> 'a list \<Rightarrow> error + 'b list" where
  "generate f [] = Inr []"
| "generate f (x # xs) =
     (case f x of Inl e \<Rightarrow> Inl e
      | Inr y \<Rightarrow> (case generate f xs of Inl e \<Rightarrow> Inl e | Inr ys \<Rightarrow> Inr (y # ys)))"

text \<open>Python's \<open>>\<close> on pairs: the first components that differ decide; equal pairs
  are not greater.\<close>

fun tuple_gt :: "real \<times> 's::linorder \<Rightarrow> real \<times> 's \<Rightarrow> bool" where
  "tuple_gt (p, s) (q, r) = (if p \<noteq> q then p > q else if s \<noteq> r then s > r else False)"

text \<open>\<^verbatim>\<open>max(iterable)\<close>: the running maximum is replaced only by a strictly
  greater element; an empty iterable raises.\<close>

fun py_max :: "(real \<times> 's::linorder) list \<Rightarrow> error + (real \<times> 's)" where
  "py_max [] = Inl ValueError"
| "py_max (x # xs) = Inr (foldl (\<lambda>m y. if tuple_gt y m then y else m) x xs)"

text \<open>\<^verbatim>\<open>for x in xs: body\<close> over a loop state; an exception leaves the loop.\<close>

fun for_each :: "'a list \<Rightarrow> ('a \<Rightarrow> 'st \<Rightarrow> error + 'st) \<Rightarrow> 'st \<Rightarrow> error + 'st" where
  "for_each [] body st = Inr st"
| "for_each (x # xs) body st =
     (case body x st of Inl e \<Rightarrow> Inl e | Inr st' \<Rightarrow> for_each xs body st')"

section \<open>The validator\<close>

type_synonym 's start_table = "'s \<rightharpoonup> real"
type_synonym 's trans_table = "'s \<rightharpoonup> ('s \<rightharpoonup> real)"
type_synonym ('s, 'o) emit_table = "'s \<rightharpoonup> ('o \<rightharpoonup> real)"

definition validate_input ::
  "'o py_seq \<Rightarrow> 's py_seq \<Rightarrow> 's start_table \<Rightarrow> 's trans_table \<Rightarrow> ('s, 'o) emit_table
     \<Rightarrow> error + unit" where
  "validate_input observations states start_prob trans_prob emit_prob =
     and_then (py_assert (is_list_or_tuple observations)
                 ''Observations must be a list or tuple.'') (\<lambda>_.
     and_then (py_assert (is_list_or_tuple states)
                 ''States must be a list or tuple.'') (\<lambda>_.
     and_then (py_assert (dom start_prob = set (items states))
                 ''Start probabilities must match states.'') (\<lambda>_.
     and_then (py_assert (dom trans_prob = set (items states))
                 ''Transition probabilities must match states.'') (\<lambda>_.
     and_then (py_all (\<lambda>s. and_then (subscript trans_prob s)
                            (\<lambda>row. Inr (dom row = set (items states))))
                 (items states)) (\<lambda>ok.
     and_then (py_assert ok
                 ''Transition probabilities must be defined for all states.'') (\<lambda>_.
     and_then (py_assert (dom emit_prob = set (items states))
                 ''Emission probabilities must match states.'') (\<lambda>_.
     and_then (py_all (\<lambda>s. and_then (subscript emit_prob s)
                            (\<lambda>row. Inr (dom row = set (items observations))))
                 (items states)) (\<lambda>ok.
     py_assert ok
       ''Emission probabilities must be defined for all observations.''))))))))"

section \<open>The decoder\<close>

type_synonym 's trellis = "('s \<rightharpoonup> real) list"
type_synonym 's path_table = "'s \<rightharpoonup> 's list"

text \<open>The body of the initialisation loop (\<open>t = 0\<close>).\<close>

definition init_step ::
  "'o list \<Rightarrow> 's start_table \<Rightarrow> ('s, 'o) emit_table \<Rightarrow> 's
     \<Rightarrow> 's trellis \<times> 's path_table \<Rightarrow> error + ('s trellis \<times> 's path_table)" where
  "init_step observations start_prob emit_prob state = (\<lambda>(V, path).
     and_then (subscript start_prob state) (\<lambda>a.
     and_then (subscript emit_prob state) (\<lambda>row.
     and_then (item observations 0) (\<lambda>ob.
     and_then (subscript row ob) (\<lambda>b.
     and_then (item V 0) (\<lambda>V0.
     Inr (V[0 := V0(state \<mapsto> a * b)], path(state \<mapsto> [state]))))))))"

text \<open>One element of the generator inside \<^verbatim>\<open>max\<close> in the recurrence.\<close>

definition candidate ::
  "'s trellis \<Rightarrow> nat \<Rightarrow> 's trans_table \<Rightarrow> ('s, 'o) emit_table \<Rightarrow> 'o list \<Rightarrow> 's \<Rightarrow> 's
     \<Rightarrow> error + (real \<times> 's)" where
  "candidate V t trans_prob emit_prob observations current_state prev_state =
     and_then (item V (t - 1)) (\<lambda>layer.
     and_then (subscript layer prev_state) (\<lambda>v.
     and_then (subscript trans_prob prev_state) (\<lambda>trow.
     and_then (subscript trow current_state) (\<lambda>a.
     and_then (subscript emit_prob current_state) (\<lambda>erow.
     and_then (item observations t) (\<lambda>ob.
     and_then (subscript erow ob) (\<lambda>b.
     Inr (v * a * b, prev_state))))))))"

text \<open>The \<^verbatim>\<open>max\<close> over the previous states (lines 50 to 53): the generator is
  consumed in the order of \<^verbatim>\<open>states\<close>.\<close>

definition max_previous ::
  "'s trellis \<Rightarrow> nat \<Rightarrow> 's::linorder list \<Rightarrow> 's trans_table \<Rightarrow> ('s, 'o) emit_table
     \<Rightarrow> 'o list \<Rightarrow> 's \<Rightarrow> error + (real \<times> 's)" where
  "max_previous V t states trans_prob emit_prob observations current_state =
     and_then (generate (candidate V t trans_prob emit_prob observations current_state)
                 states) py_max"

text \<open>The body of the loop over \<^verbatim>\<open>current_state\<close> at time \<open>t\<close>.\<close>

definition state_step ::
  "nat \<Rightarrow> 's::linorder list \<Rightarrow> 's trans_table \<Rightarrow> ('s, 'o) emit_table \<Rightarrow> 'o list
     \<Rightarrow> 's path_table \<Rightarrow> 's
     \<Rightarrow> 's trellis \<times> 's path_table \<Rightarrow> error + ('s trellis \<times> 's path_table)" where
  "state_step t states trans_prob emit_prob observations path current_state =
     (\<lambda>(V, new_path).
     and_then (max_previous V t states trans_prob emit_prob observations current_state)
       (\<lambda>(max_prob, prev_st).
     and_then (item V t) (\<lambda>layer.
     and_then (subscript path prev_st) (\<lambda>best_prev.
     Inr (V[t := layer(current_state \<mapsto> max_prob)],
          new_path(current_state \<mapsto> best_prev @ [current_state]))))))"

text \<open>The body of the loop over \<open>t\<close>: a new layer, a new path table, the loop over
  the states, and the rebinding of \<^verbatim>\<open>path\<close>.\<close>

definition time_step ::
  "'s::linorder list \<Rightarrow> 's trans_table \<Rightarrow> ('s, 'o) emit_table \<Rightarrow> 'o list \<Rightarrow> nat
     \<Rightarrow> 's trellis \<times> 's path_table \<Rightarrow> error + ('s trellis \<times> 's path_table)" where
  "time_step states trans_prob emit_prob observations t = (\<lambda>(V, path).
     for_each states (state_step t states trans_prob emit_prob observations path)
       (V @ [Map.empty], Map.empty))"

text \<open>The tables after both loops (lines 28 to 63).\<close>

definition build_tables ::
  "'o list \<Rightarrow> 's::linorder list \<Rightarrow> 's start_table \<Rightarrow> 's trans_table \<Rightarrow> ('s, 'o) emit_table
     \<Rightarrow> error + ('s trellis \<times> 's path_table)" where
  "build_tables observations states start_prob trans_prob emit_prob =
     and_then (for_each states (init_step observations start_prob emit_prob)
                 ([Map.empty], Map.empty)) (\<lambda>(V, path).
     for_each [1..<length observations]
       (time_step states trans_prob emit_prob observations) (V, path))"

text \<open>One element of the generator inside the final \<^verbatim>\<open>max\<close>, and that
  \<^verbatim>\<open>max\<close> (line 66).\<close>

definition final_candidate :: "'s trellis \<Rightarrow> 's \<Rightarrow> error + (real \<times> 's)" where
  "final_candidate V state =
     and_then (last_item V) (\<lambda>layer.
     and_then (subscript layer state) (\<lambda>v. Inr (v, state)))"

definition max_final :: "'s trellis \<Rightarrow> 's::linorder list \<Rightarrow> error + (real \<times> 's)" where
  "max_final V states = and_then (generate (final_candidate V) states) py_max"

definition viterbi ::
  "'o py_seq \<Rightarrow> 's::linorder py_seq \<Rightarrow> 's start_table \<Rightarrow> 's trans_table
     \<Rightarrow> ('s, 'o) emit_table \<Rightarrow> error + (real \<times> 's list)" where
  "viterbi observations states start_prob trans_prob emit_prob =
     and_then (validate_input observations states start_prob trans_prob emit_prob) (\<lambda>_.
     and_then (build_tables (items observations) (items states)
                 start_prob trans_prob emit_prob) (\<lambda>(V, path).
     and_then (max_final V (items states)) (\<lambda>(max_prob, final_state).
     and_then (subscript path final_state) (\<lambda>best_path.
     Inr (max_prob, best_path)))))"

section \<open>The example run of the source\<close>

definition ex_observations :: "string py_seq" where
  "ex_observations = PyTuple [''walk'', ''shop'', ''clean'']"

definition ex_states :: "string py_seq" where
  "ex_states = PyTuple [''Rainy'', ''Sunny'']"

definition ex_start_prob :: "string start_table" where
  "ex_start_prob = [''Rainy'' \<mapsto> 0.6, ''Sunny'' \<mapsto> 0.4]"

definition ex_trans_prob :: "string trans_table" where
  "ex_trans_prob =
     [''Rainy'' \<mapsto> [''Rainy'' \<mapsto> 0.7, ''Sunny'' \<mapsto> 0.3],
      ''Sunny'' \<mapsto> [''Rainy'' \<mapsto> 0.4, ''Sunny'' \<mapsto> 0.6]]"

definition ex_emit_prob :: "(string, string) emit_table" where
  "ex_emit_prob =
     [''Rainy'' \<mapsto> [''walk'' \<mapsto> 0.1, ''shop'' \<mapsto> 0.4, ''clean'' \<mapsto> 0.5],
      ''Sunny'' \<mapsto> [''walk'' \<mapsto> 0.6, ''shop'' \<mapsto> 0.3, ''clean'' \<mapsto> 0.1]]"

section \<open>Notions used to state the properties\<close>

text \<open>Checks 5 and 7 of the validator as one predicate: every state of the
  sequence has a row in the table, and the keys of that row are exactly \<open>keys\<close>.\<close>

definition inner_keys :: "('s \<rightharpoonup> ('k \<rightharpoonup> real)) \<Rightarrow> 's list \<Rightarrow> 'k set \<Rightarrow> bool" where
  "inner_keys table states keys =
     (\<forall>s\<in>set states. case table s of None \<Rightarrow> False | Some row \<Rightarrow> dom row = keys)"

text \<open>The five key-set conditions (checks 3 to 7) together.\<close>

definition valid_tables ::
  "'o list \<Rightarrow> 's list \<Rightarrow> 's start_table \<Rightarrow> 's trans_table \<Rightarrow> ('s, 'o) emit_table \<Rightarrow> bool" where
  "valid_tables observations states start_prob trans_prob emit_prob \<longleftrightarrow>
     dom start_prob = set states \<and>
     dom trans_prob = set states \<and> inner_keys trans_prob states (set states) \<and>
     dom emit_prob = set states \<and> inner_keys emit_prob states (set observations)"

text \<open>The entries of the validated tables, read as numbers.\<close>

definition start_of :: "'s start_table \<Rightarrow> 's \<Rightarrow> real" where
  "start_of start_prob s = the (start_prob s)"

definition trans_of :: "'s trans_table \<Rightarrow> 's \<Rightarrow> 's \<Rightarrow> real" where
  "trans_of trans_prob p c = the (the (trans_prob p) c)"

definition emit_of :: "('s, 'o) emit_table \<Rightarrow> 's \<Rightarrow> 'o \<Rightarrow> real" where
  "emit_of emit_prob s ob = the (the (emit_prob s) ob)"

text \<open>The closed form of what the two loops store: \<open>best \<dots> t s\<close> is the pair of
  \<^verbatim>\<open>V[t][s]\<close> and of \<^verbatim>\<open>path[s]\<close> after the iteration for time \<open>t\<close>.\<close>

primrec best ::
  "'o list \<Rightarrow> 's::linorder list \<Rightarrow> 's start_table \<Rightarrow> 's trans_table \<Rightarrow> ('s, 'o) emit_table
     \<Rightarrow> nat \<Rightarrow> 's \<Rightarrow> real \<times> 's list" where
  "best obs states sp tp ep 0 = (\<lambda>s. (start_of sp s * emit_of ep s (obs ! 0), [s]))"
| "best obs states sp tp ep (Suc t) = (\<lambda>c.
     case py_max (map (\<lambda>p. (fst (best obs states sp tp ep t p) * trans_of tp p c
                               * emit_of ep c (obs ! Suc t), p)) states) of
       Inl e \<Rightarrow> (0, [])
     | Inr (m, q) \<Rightarrow> (m, snd (best obs states sp tp ep t q) @ [c]))"

definition on_states :: "'s list \<Rightarrow> ('s \<Rightarrow> 'a) \<Rightarrow> ('s \<rightharpoonup> 'a)" where
  "on_states states f = (\<lambda>s. if s \<in> set states then Some (f s) else None)"

definition layers ::
  "'o list \<Rightarrow> 's::linorder list \<Rightarrow> 's start_table \<Rightarrow> 's trans_table \<Rightarrow> ('s, 'o) emit_table
     \<Rightarrow> nat \<Rightarrow> 's trellis" where
  "layers obs states sp tp ep n =
     map (\<lambda>i. on_states states (\<lambda>s. fst (best obs states sp tp ep i s))) [0..<n]"

definition paths ::
  "'o list \<Rightarrow> 's::linorder list \<Rightarrow> 's start_table \<Rightarrow> 's trans_table \<Rightarrow> ('s, 'o) emit_table
     \<Rightarrow> nat \<Rightarrow> 's path_table" where
  "paths obs states sp tp ep t = on_states states (\<lambda>s. snd (best obs states sp tp ep t s))"

text \<open>The probability of a state sequence, in the words of the specification:
  \<open>start_prob[s0] * emit_prob[s0][o0]\<close> times the product over \<open>t > 0\<close> of
  \<open>trans_prob[s(t-1)][s(t)] * emit_prob[s(t)][o(t)]\<close>.\<close>

definition path_probability ::
  "'s start_table \<Rightarrow> 's trans_table \<Rightarrow> ('s, 'o) emit_table \<Rightarrow> 'o list \<Rightarrow> 's list \<Rightarrow> real" where
  "path_probability start_prob trans_prob emit_prob observations ss =
     start_of start_prob (ss ! 0) * emit_of emit_prob (ss ! 0) (observations ! 0) *
     (\<Prod>t = 1..<length observations.
        trans_of trans_prob (ss ! (t - 1)) (ss ! t) * emit_of emit_prob (ss ! t) (observations ! t))"

text \<open>The same product over the first \<open>n\<close> observations only.\<close>

definition prefix_probability ::
  "'s start_table \<Rightarrow> 's trans_table \<Rightarrow> ('s, 'o) emit_table \<Rightarrow> 'o list \<Rightarrow> 's list \<Rightarrow> nat
     \<Rightarrow> real" where
  "prefix_probability start_prob trans_prob emit_prob observations ss n =
     start_of start_prob (ss ! 0) * emit_of emit_prob (ss ! 0) (observations ! 0) *
     (\<Prod>t = 1..<n.
        trans_of trans_prob (ss ! (t - 1)) (ss ! t) * emit_of emit_prob (ss ! t) (observations ! t))"

text \<open>The transition and emission entries the decoder reads are not negative.\<close>

definition nonneg_tables ::
  "'o list \<Rightarrow> 's list \<Rightarrow> 's trans_table \<Rightarrow> ('s, 'o) emit_table \<Rightarrow> bool" where
  "nonneg_tables observations states trans_prob emit_prob \<longleftrightarrow>
     (\<forall>p\<in>set states. \<forall>c\<in>set states. 0 \<le> trans_of trans_prob p c) \<and>
     (\<forall>s\<in>set states. \<forall>ob\<in>set observations. 0 \<le> emit_of emit_prob s ob)"

text \<open>All entries the decoder reads lie in the interval from 0 to 1.\<close>

definition unit_tables ::
  "'o list \<Rightarrow> 's list \<Rightarrow> 's start_table \<Rightarrow> 's trans_table \<Rightarrow> ('s, 'o) emit_table \<Rightarrow> bool" where
  "unit_tables observations states start_prob trans_prob emit_prob \<longleftrightarrow>
     (\<forall>s\<in>set states. 0 \<le> start_of start_prob s \<and> start_of start_prob s \<le> 1) \<and>
     (\<forall>p\<in>set states. \<forall>c\<in>set states.
        0 \<le> trans_of trans_prob p c \<and> trans_of trans_prob p c \<le> 1) \<and>
     (\<forall>s\<in>set states. \<forall>ob\<in>set observations.
        0 \<le> emit_of emit_prob s ob \<and> emit_of emit_prob s ob \<le> 1)"

text \<open>The sequences of an input with negative table entries: two states, three
  observations of one symbol. Its tables are tables of floats, further down.\<close>

definition neg_observations :: "string py_seq" where
  "neg_observations = PyTuple [''x'', ''x'', ''x'']"

definition neg_states :: "string py_seq" where
  "neg_states = PyTuple [''A'', ''B'']"

text \<open>The seven checks of the validator, in the words of the specification:
  their order, what each requires, and the message of the assertion the source
  attaches to each.\<close>

datatype check =
  ObservationsSequence | StatesSequence | StartKeys | TransKeys | TransInnerKeys
  | EmitKeys | EmitInnerKeys

fun rank :: "check \<Rightarrow> nat" where
  "rank ObservationsSequence = 1"
| "rank StatesSequence = 2"
| "rank StartKeys = 3"
| "rank TransKeys = 4"
| "rank TransInnerKeys = 5"
| "rank EmitKeys = 6"
| "rank EmitInnerKeys = 7"

fun holds ::
  "check \<Rightarrow> 'o py_seq \<Rightarrow> 's py_seq \<Rightarrow> 's start_table \<Rightarrow> 's trans_table
     \<Rightarrow> ('s, 'o) emit_table \<Rightarrow> bool" where
  "holds ObservationsSequence observations states start_prob trans_prob emit_prob =
     is_list_or_tuple observations"
| "holds StatesSequence observations states start_prob trans_prob emit_prob =
     is_list_or_tuple states"
| "holds StartKeys observations states start_prob trans_prob emit_prob =
     (dom start_prob = set (items states))"
| "holds TransKeys observations states start_prob trans_prob emit_prob =
     (dom trans_prob = set (items states))"
| "holds TransInnerKeys observations states start_prob trans_prob emit_prob =
     inner_keys trans_prob (items states) (set (items states))"
| "holds EmitKeys observations states start_prob trans_prob emit_prob =
     (dom emit_prob = set (items states))"
| "holds EmitInnerKeys observations states start_prob trans_prob emit_prob =
     inner_keys emit_prob (items states) (set (items observations))"

fun message :: "check \<Rightarrow> string" where
  "message ObservationsSequence = ''Observations must be a list or tuple.''"
| "message StatesSequence = ''States must be a list or tuple.''"
| "message StartKeys = ''Start probabilities must match states.''"
| "message TransKeys = ''Transition probabilities must match states.''"
| "message TransInnerKeys = ''Transition probabilities must be defined for all states.''"
| "message EmitKeys = ''Emission probabilities must match states.''"
| "message EmitInnerKeys = ''Emission probabilities must be defined for all observations.''"

text \<open>An input on which every product ties: two states, two observations of one
  symbol, all entries equal; and the tables the loops build on it.\<close>

definition tie_observations :: "string py_seq" where
  "tie_observations = PyTuple [''x'', ''x'']"

definition tie_states :: "string py_seq" where
  "tie_states = PyTuple [''A'', ''B'']"

definition tie_start_prob :: "string start_table" where
  "tie_start_prob = [''A'' \<mapsto> 1/2, ''B'' \<mapsto> 1/2]"

definition tie_trans_prob :: "string trans_table" where
  "tie_trans_prob = [''A'' \<mapsto> [''A'' \<mapsto> 1/2, ''B'' \<mapsto> 1/2],
                     ''B'' \<mapsto> [''A'' \<mapsto> 1/2, ''B'' \<mapsto> 1/2]]"

definition tie_emit_prob :: "(string, string) emit_table" where
  "tie_emit_prob = [''A'' \<mapsto> [''x'' \<mapsto> 1], ''B'' \<mapsto> [''x'' \<mapsto> 1]]"

definition tie_V :: "string trellis" where
  "tie_V = [[''A'' \<mapsto> 1/2, ''B'' \<mapsto> 1/2], [''A'' \<mapsto> 1/4, ''B'' \<mapsto> 1/4]]"

definition tie_path :: "string path_table" where
  "tie_path = [''A'' \<mapsto> [''B'', ''A''], ''B'' \<mapsto> [''B'', ''B'']]"

section \<open>The same program over a store of objects\<close>

text \<open>
  Python passes references: the five arguments are objects the caller still holds, and
  an assignment through a subscript changes the object it reaches. To state what a
  call changes, the program is modelled a second time over a store: a list of objects,
  an address being an index into it. Reading an object leaves the store as it is,
  \<^verbatim>\<open>d[k] = v\<close> and \<^verbatim>\<open>xs.append(v)\<close> replace the object at an address, and a display
  such as \<^verbatim>\<open>{}\<close> or \<^verbatim>\<open>[{}]\<close> appends a new object. A table refers to its rows by
  address, so two rows, or a row and another argument, may be one object. The lists
  stored in \<^verbatim>\<open>path\<close> are never changed after they are built, so they are kept as
  values. A \<^verbatim>\<open>for\<close> loop and a generator read their sequence when they start. An
  exception leaves the store as it is at that moment.
\<close>

type_synonym addr = nat

datatype ('s, 'o) object =
    Symbols "'o list"
  | Labels "'s list"
  | Numbers "'s \<rightharpoonup> real"
  | Emissions "'o \<rightharpoonup> real"
  | Rows "'s \<rightharpoonup> addr"
  | Layers "addr list"
  | PathTable "'s \<rightharpoonup> 's list"
  | Other

type_synonym ('s, 'o) store = "('s, 'o) object list"

type_synonym ('s, 'o, 'a) action = "('s, 'o) store \<Rightarrow> (error + 'a) \<times> ('s, 'o) store"

definition result_of :: "error + 'a \<Rightarrow> ('s, 'o, 'a) action" where
  "result_of r = (\<lambda>h. (r, h))"

definition then_st ::
  "('s, 'o, 'a) action \<Rightarrow> ('a \<Rightarrow> ('s, 'o, 'b) action) \<Rightarrow> ('s, 'o, 'b) action" where
  "then_st m f = (\<lambda>h. case m h of (Inl e, h') \<Rightarrow> (Inl e, h') | (Inr x, h') \<Rightarrow> f x h')"

definition deref :: "addr \<Rightarrow> ('s, 'o, ('s, 'o) object) action" where
  "deref a = (\<lambda>h. if a < length h then (Inr (h ! a), h) else (Inl TypeError, h))"

definition assign :: "addr \<Rightarrow> ('s, 'o) object \<Rightarrow> ('s, 'o, unit) action" where
  "assign a ob = (\<lambda>h. (Inr (), h[a := ob]))"

definition alloc :: "('s, 'o) object \<Rightarrow> ('s, 'o, addr) action" where
  "alloc ob = (\<lambda>h. (Inr (length h), h @ [ob]))"

fun symbols_of :: "('s, 'o) object \<Rightarrow> error + 'o list" where
  "symbols_of (Symbols xs) = Inr xs"
| "symbols_of _ = Inl TypeError"

fun labels_of :: "('s, 'o) object \<Rightarrow> error + 's list" where
  "labels_of (Labels xs) = Inr xs"
| "labels_of _ = Inl TypeError"

fun numbers_of :: "('s, 'o) object \<Rightarrow> error + ('s \<rightharpoonup> real)" where
  "numbers_of (Numbers d) = Inr d"
| "numbers_of _ = Inl TypeError"

fun emissions_of :: "('s, 'o) object \<Rightarrow> error + ('o \<rightharpoonup> real)" where
  "emissions_of (Emissions d) = Inr d"
| "emissions_of _ = Inl TypeError"

fun rows_of :: "('s, 'o) object \<Rightarrow> error + ('s \<rightharpoonup> addr)" where
  "rows_of (Rows d) = Inr d"
| "rows_of _ = Inl TypeError"

fun layers_of :: "('s, 'o) object \<Rightarrow> error + addr list" where
  "layers_of (Layers xs) = Inr xs"
| "layers_of _ = Inl TypeError"

fun path_table_of :: "('s, 'o) object \<Rightarrow> error + ('s \<rightharpoonup> 's list)" where
  "path_table_of (PathTable d) = Inr d"
| "path_table_of _ = Inl TypeError"

text \<open>\<^verbatim>\<open>set(d.keys())\<close> for a dictionary keyed by states, and for one keyed by
  observation symbols.\<close>

fun state_keys_of :: "('s, 'o) object \<Rightarrow> error + 's set" where
  "state_keys_of (Numbers d) = Inr (dom d)"
| "state_keys_of (Rows d) = Inr (dom d)"
| "state_keys_of (PathTable d) = Inr (dom d)"
| "state_keys_of _ = Inl TypeError"

fun symbol_keys_of :: "('s, 'o) object \<Rightarrow> error + 'o set" where
  "symbol_keys_of (Emissions d) = Inr (dom d)"
| "symbol_keys_of _ = Inl TypeError"

text \<open>\<^verbatim>\<open>isinstance(x, (list, tuple))\<close>.\<close>

fun is_sequence :: "('s, 'o) object \<Rightarrow> bool" where
  "is_sequence (Symbols xs) = True"
| "is_sequence (Labels xs) = True"
| "is_sequence (Layers xs) = True"
| "is_sequence _ = False"

text \<open>Reading the object at an address as an object of one kind.\<close>

definition fetch ::
  "(('s, 'o) object \<Rightarrow> error + 'a) \<Rightarrow> addr \<Rightarrow> ('s, 'o, 'a) action" where
  "fetch kind a = then_st (deref a) (\<lambda>ob. result_of (kind ob))"

fun all_st :: "('a \<Rightarrow> ('s, 'o, bool) action) \<Rightarrow> 'a list \<Rightarrow> ('s, 'o, bool) action" where
  "all_st f [] = result_of (Inr True)"
| "all_st f (x # xs) =
     then_st (f x) (\<lambda>b. if b then all_st f xs else result_of (Inr False))"

fun generate_st ::
  "('a \<Rightarrow> ('s, 'o, 'b) action) \<Rightarrow> 'a list \<Rightarrow> ('s, 'o, 'b list) action" where
  "generate_st f [] = result_of (Inr [])"
| "generate_st f (x # xs) =
     then_st (f x) (\<lambda>y. then_st (generate_st f xs) (\<lambda>ys. result_of (Inr (y # ys))))"

text \<open>A loop whose body may rebind a local variable \<open>v\<close>.\<close>

fun for_each_st ::
  "'a list \<Rightarrow> ('a \<Rightarrow> 'v \<Rightarrow> ('s, 'o, 'v) action) \<Rightarrow> 'v \<Rightarrow> ('s, 'o, 'v) action" where
  "for_each_st [] body v = result_of (Inr v)"
| "for_each_st (x # xs) body v = then_st (body x v) (for_each_st xs body)"

text \<open>The elements of the two generators inside \<^verbatim>\<open>all\<close> (lines 99 and 101).\<close>

definition st_row_keys_match :: "addr \<Rightarrow> addr \<Rightarrow> 's \<Rightarrow> ('s, 'o, bool) action" where
  "st_row_keys_match trans_prob states s =
     then_st (fetch rows_of trans_prob) (\<lambda>table.
     then_st (result_of (subscript table s)) (\<lambda>row.
     then_st (fetch state_keys_of row) (\<lambda>keys.
     then_st (fetch labels_of states) (\<lambda>sts.
     result_of (Inr (keys = set sts))))))"

definition st_row_symbols_match :: "addr \<Rightarrow> addr \<Rightarrow> 's \<Rightarrow> ('s, 'o, bool) action" where
  "st_row_symbols_match emit_prob observations s =
     then_st (fetch rows_of emit_prob) (\<lambda>table.
     then_st (result_of (subscript table s)) (\<lambda>row.
     then_st (fetch symbol_keys_of row) (\<lambda>keys.
     then_st (fetch symbols_of observations) (\<lambda>obs.
     result_of (Inr (keys = set obs))))))"

definition st_validate_input ::
  "addr \<Rightarrow> addr \<Rightarrow> addr \<Rightarrow> addr \<Rightarrow> addr \<Rightarrow> ('s, 'o, unit) action" where
  "st_validate_input observations states start_prob trans_prob emit_prob =
     then_st (deref observations) (\<lambda>ob.
     then_st (result_of (py_assert (is_sequence ob) ''Observations must be a list or tuple.'')) (\<lambda>_.
     then_st (deref states) (\<lambda>ob.
     then_st (result_of (py_assert (is_sequence ob) ''States must be a list or tuple.'')) (\<lambda>_.
     then_st (fetch state_keys_of start_prob) (\<lambda>keys.
     then_st (fetch labels_of states) (\<lambda>sts.
     then_st (result_of (py_assert (keys = set sts) ''Start probabilities must match states.'')) (\<lambda>_.
     then_st (fetch state_keys_of trans_prob) (\<lambda>keys.
     then_st (fetch labels_of states) (\<lambda>sts.
     then_st (result_of (py_assert (keys = set sts) ''Transition probabilities must match states.'')) (\<lambda>_.
     then_st (fetch labels_of states) (\<lambda>sts.
     then_st (all_st (st_row_keys_match trans_prob states) sts) (\<lambda>ok.
     then_st (result_of (py_assert ok ''Transition probabilities must be defined for all states.'')) (\<lambda>_.
     then_st (fetch state_keys_of emit_prob) (\<lambda>keys.
     then_st (fetch labels_of states) (\<lambda>sts.
     then_st (result_of (py_assert (keys = set sts) ''Emission probabilities must match states.'')) (\<lambda>_.
     then_st (fetch labels_of states) (\<lambda>sts.
     then_st (all_st (st_row_symbols_match emit_prob observations) sts) (\<lambda>ok.
     result_of (py_assert ok ''Emission probabilities must be defined for all observations.'')))))))))))))))))))"

text \<open>Line 35 and line 38.\<close>

definition st_init_step ::
  "addr \<Rightarrow> addr \<Rightarrow> addr \<Rightarrow> addr \<Rightarrow> addr \<Rightarrow> 's \<Rightarrow> unit \<Rightarrow> ('s, 'o, unit) action" where
  "st_init_step observations start_prob emit_prob V path state = (\<lambda>_.
     then_st (fetch numbers_of start_prob) (\<lambda>table.
     then_st (result_of (subscript table state)) (\<lambda>a.
     then_st (fetch rows_of emit_prob) (\<lambda>table.
     then_st (result_of (subscript table state)) (\<lambda>row.
     then_st (fetch symbols_of observations) (\<lambda>obs.
     then_st (result_of (item obs 0)) (\<lambda>ob.
     then_st (fetch emissions_of row) (\<lambda>erow.
     then_st (result_of (subscript erow ob)) (\<lambda>b.
     then_st (fetch layers_of V) (\<lambda>ls.
     then_st (result_of (item ls 0)) (\<lambda>l.
     then_st (fetch numbers_of l) (\<lambda>layer.
     then_st (assign l (Numbers (layer(state \<mapsto> a * b)))) (\<lambda>_.
     then_st (fetch path_table_of path) (\<lambda>paths.
     assign path (PathTable (paths(state \<mapsto> [state])))))))))))))))))"

text \<open>One element of the generator of lines 50 to 53.\<close>

definition st_candidate ::
  "addr \<Rightarrow> nat \<Rightarrow> addr \<Rightarrow> addr \<Rightarrow> addr \<Rightarrow> 's \<Rightarrow> 's \<Rightarrow> ('s, 'o, real \<times> 's) action" where
  "st_candidate V t trans_prob emit_prob observations current_state prev_state =
     then_st (fetch layers_of V) (\<lambda>ls.
     then_st (result_of (item ls (t - 1))) (\<lambda>l.
     then_st (fetch numbers_of l) (\<lambda>layer.
     then_st (result_of (subscript layer prev_state)) (\<lambda>v.
     then_st (fetch rows_of trans_prob) (\<lambda>table.
     then_st (result_of (subscript table prev_state)) (\<lambda>row.
     then_st (fetch numbers_of row) (\<lambda>trow.
     then_st (result_of (subscript trow current_state)) (\<lambda>a.
     then_st (fetch rows_of emit_prob) (\<lambda>table.
     then_st (result_of (subscript table current_state)) (\<lambda>row.
     then_st (fetch symbols_of observations) (\<lambda>obs.
     then_st (result_of (item obs t)) (\<lambda>ob.
     then_st (fetch emissions_of row) (\<lambda>erow.
     then_st (result_of (subscript erow ob)) (\<lambda>b.
     result_of (Inr (v * a * b, prev_state))))))))))))))))"

text \<open>Lines 50 to 59.\<close>

definition st_state_step ::
  "nat \<Rightarrow> addr \<Rightarrow> addr \<Rightarrow> addr \<Rightarrow> addr \<Rightarrow> addr \<Rightarrow> addr \<Rightarrow> addr \<Rightarrow> 's::linorder \<Rightarrow> unit
     \<Rightarrow> ('s, 'o, unit) action" where
  "st_state_step t states trans_prob emit_prob observations V path new_path current_state =
     (\<lambda>_.
     then_st (fetch labels_of states) (\<lambda>sts.
     then_st (generate_st (st_candidate V t trans_prob emit_prob observations current_state) sts) (\<lambda>cands.
     then_st (result_of (py_max cands)) (\<lambda>(max_prob, prev_st).
     then_st (fetch layers_of V) (\<lambda>ls.
     then_st (result_of (item ls t)) (\<lambda>l.
     then_st (fetch numbers_of l) (\<lambda>layer.
     then_st (assign l (Numbers (layer(current_state \<mapsto> max_prob)))) (\<lambda>_.
     then_st (fetch path_table_of path) (\<lambda>paths.
     then_st (result_of (subscript paths prev_st)) (\<lambda>best_prev.
     then_st (fetch path_table_of new_path) (\<lambda>new_paths.
     assign new_path (PathTable (new_paths(current_state \<mapsto> best_prev @ [current_state]))))))))))))))"

text \<open>Lines 43 to 63; the value returned is the new binding of \<^verbatim>\<open>path\<close>.\<close>

definition st_time_step ::
  "addr \<Rightarrow> addr \<Rightarrow> addr \<Rightarrow> addr \<Rightarrow> addr \<Rightarrow> nat \<Rightarrow> addr \<Rightarrow> ('s::linorder, 'o, addr) action" where
  "st_time_step states trans_prob emit_prob observations V t path =
     then_st (alloc (Numbers Map.empty)) (\<lambda>l.
     then_st (fetch layers_of V) (\<lambda>ls.
     then_st (assign V (Layers (ls @ [l]))) (\<lambda>_.
     then_st (alloc (PathTable Map.empty)) (\<lambda>new_path.
     then_st (fetch labels_of states) (\<lambda>sts.
     then_st (for_each_st sts (st_state_step t states trans_prob emit_prob observations V path new_path) ()) (\<lambda>_.
     result_of (Inr new_path)))))))"

text \<open>One element of the generator of line 66.\<close>

definition st_final_candidate :: "addr \<Rightarrow> 's \<Rightarrow> ('s, 'o, real \<times> 's) action" where
  "st_final_candidate V state =
     then_st (fetch layers_of V) (\<lambda>ls.
     then_st (result_of (last_item ls)) (\<lambda>l.
     then_st (fetch numbers_of l) (\<lambda>layer.
     then_st (result_of (subscript layer state)) (\<lambda>v.
     result_of (Inr (v, state))))))"

text \<open>Lines 31 to 75, with \<^verbatim>\<open>V\<close> and \<^verbatim>\<open>path\<close> bound to the objects of lines 28
  and 29.\<close>

definition st_decode ::
  "addr \<Rightarrow> addr \<Rightarrow> addr \<Rightarrow> addr \<Rightarrow> addr \<Rightarrow> addr \<Rightarrow> addr
     \<Rightarrow> ('s::linorder, 'o, real \<times> 's list) action" where
  "st_decode observations states start_prob trans_prob emit_prob V path =
     then_st (fetch labels_of states) (\<lambda>sts.
     then_st (for_each_st sts (st_init_step observations start_prob emit_prob V path) ()) (\<lambda>_.
     then_st (fetch symbols_of observations) (\<lambda>obs.
     then_st (for_each_st [1..<length obs] (st_time_step states trans_prob emit_prob observations V) path) (\<lambda>path.
     then_st (fetch labels_of states) (\<lambda>sts.
     then_st (generate_st (st_final_candidate V) sts) (\<lambda>finals.
     then_st (result_of (py_max finals)) (\<lambda>(max_prob, final_state).
     then_st (fetch path_table_of path) (\<lambda>paths.
     then_st (result_of (subscript paths final_state)) (\<lambda>best_path.
     result_of (Inr (max_prob, best_path)))))))))))"

definition st_viterbi ::
  "addr \<Rightarrow> addr \<Rightarrow> addr \<Rightarrow> addr \<Rightarrow> addr \<Rightarrow> ('s::linorder, 'o, real \<times> 's list) action" where
  "st_viterbi observations states start_prob trans_prob emit_prob =
     then_st (st_validate_input observations states start_prob trans_prob emit_prob) (\<lambda>_.
     then_st (alloc (Numbers Map.empty)) (\<lambda>l.
     then_st (alloc (Layers [l])) (\<lambda>V.
     then_st (alloc (PathTable Map.empty)) (\<lambda>path.
     st_decode observations states start_prob trans_prob emit_prob V path))))"

text \<open>What the proof of the frame property keeps track of: the store \<open>h\<close> still
  begins with the store \<open>h0\<close> of the call; the list \<^verbatim>\<open>V\<close> and the layers it refers to
  lie behind \<open>h0\<close>; and an action keeps an invariant of the store while its result
  satisfies \<open>R\<close>.\<close>

definition unchanged :: "('s, 'o) store \<Rightarrow> ('s, 'o) store \<Rightarrow> bool" where
  "unchanged h0 h \<longleftrightarrow> take (length h0) h = h0"

definition local_inv :: "('s, 'o) store \<Rightarrow> addr \<Rightarrow> ('s, 'o) store \<Rightarrow> bool" where
  "local_inv h0 V h \<longleftrightarrow>
     unchanged h0 h \<and> length h0 \<le> V \<and> V < length h \<and>
     (\<forall>ls. h ! V = Layers ls \<longrightarrow> (\<forall>l\<in>set ls. length h0 \<le> l))"

definition keeps ::
  "(('s, 'o) store \<Rightarrow> bool) \<Rightarrow> ('s, 'o, 'a) action \<Rightarrow> ('a \<Rightarrow> bool) \<Rightarrow> bool" where
  "keeps I m R \<longleftrightarrow> (\<forall>h. I h \<longrightarrow> I (snd (m h)) \<and> (\<forall>x. fst (m h) = Inr x \<longrightarrow> R x))"

text \<open>The example of the source as a store: the five arguments at the addresses 0 to
  4, the rows of the two nested tables behind them.\<close>

definition ex_store :: "(string, string) store" where
  "ex_store =
     [Symbols [''walk'', ''shop'', ''clean''],
      Labels [''Rainy'', ''Sunny''],
      Numbers [''Rainy'' \<mapsto> 0.6, ''Sunny'' \<mapsto> 0.4],
      Rows [''Rainy'' \<mapsto> 5, ''Sunny'' \<mapsto> 6],
      Rows [''Rainy'' \<mapsto> 7, ''Sunny'' \<mapsto> 8],
      Numbers [''Rainy'' \<mapsto> 0.7, ''Sunny'' \<mapsto> 0.3],
      Numbers [''Rainy'' \<mapsto> 0.4, ''Sunny'' \<mapsto> 0.6],
      Emissions [''walk'' \<mapsto> 0.1, ''shop'' \<mapsto> 0.4, ''clean'' \<mapsto> 0.5],
      Emissions [''walk'' \<mapsto> 0.6, ''shop'' \<mapsto> 0.3, ''clean'' \<mapsto> 0.1]]"

text \<open>How the store model relates to the first model: the store holds the five
  arguments of the first model at five addresses, each table row as an object of its
  own; the list \<^verbatim>\<open>V\<close> at an address holds the layers \<open>Vs\<close> in distinct objects; and a
  path table sits at an address.\<close>

definition represents ::
  "('s, 'o) store \<Rightarrow> addr \<Rightarrow> addr \<Rightarrow> addr \<Rightarrow> addr \<Rightarrow> addr
     \<Rightarrow> 'o list \<Rightarrow> 's list \<Rightarrow> 's start_table \<Rightarrow> 's trans_table \<Rightarrow> ('s, 'o) emit_table
     \<Rightarrow> bool" where
  "represents h observations states start_prob trans_prob emit_prob obs sts sp tp ep \<longleftrightarrow>
     observations < length h \<and> h ! observations = Symbols obs \<and>
     states < length h \<and> h ! states = Labels sts \<and>
     start_prob < length h \<and> h ! start_prob = Numbers sp \<and>
     trans_prob < length h \<and>
     (\<exists>rows. h ! trans_prob = Rows rows \<and>
        (\<forall>s. case rows s of None \<Rightarrow> tp s = None
              | Some a \<Rightarrow> a < length h \<and> (\<exists>d. h ! a = Numbers d \<and> tp s = Some d))) \<and>
     emit_prob < length h \<and>
     (\<exists>rows. h ! emit_prob = Rows rows \<and>
        (\<forall>s. case rows s of None \<Rightarrow> ep s = None
              | Some a \<Rightarrow> a < length h \<and> (\<exists>d. h ! a = Emissions d \<and> ep s = Some d)))"

definition trellis_at ::
  "('s, 'o) store \<Rightarrow> addr \<Rightarrow> addr list \<Rightarrow> 's trellis \<Rightarrow> bool" where
  "trellis_at h V ls Vs \<longleftrightarrow>
     V < length h \<and> h ! V = Layers ls \<and> length ls = length Vs \<and> distinct ls \<and>
     (\<forall>i<length Vs. ls ! i < length h \<and> h ! (ls ! i) = Numbers (Vs ! i))"

definition paths_at :: "('s, 'o) store \<Rightarrow> addr \<Rightarrow> 's path_table \<Rightarrow> bool" where
  "paths_at h p path \<longleftrightarrow> p < length h \<and> h ! p = PathTable path"

section \<open>The same program over binary floating-point numbers\<close>

text \<open>
  A Python float is a binary64 number of IEEE 754. \<open>Finite s m e\<close> stands for the
  number \<open>m * 2 ^ e\<close>, negated when \<open>s\<close> holds; the floats are the values with
  \<open>m < 2 ^ 53\<close> and \<open>-1074 \<le> e \<le> 971\<close>, the two infinities and nan. Zero has a
  sign, and one number has several representations (\<open>Finite False 2 0\<close> and
  \<open>Finite False 1 1\<close>), so floats are compared by value.
\<close>

datatype pyfloat = Finite bool nat int | Infinity bool | NaN

fun is_finite :: "pyfloat \<Rightarrow> bool" where
  "is_finite (Finite s m e) = True"
| "is_finite (Infinity s) = False"
| "is_finite NaN = False"

definition pow2 :: "int \<Rightarrow> real" where
  "pow2 e = (if 0 \<le> e then 2 ^ nat e else 1 / 2 ^ nat (- e))"

text \<open>The exact value of a finite float. An infinity or a nan has none; every
  statement below that reads \<open>float_val x\<close> also requires \<open>is_finite x\<close>.\<close>

fun float_val :: "pyfloat \<Rightarrow> real" where
  "float_val (Finite s m e) = (if s then - real m * pow2 e else real m * pow2 e)"
| "float_val (Infinity s) = 0"
| "float_val NaN = 0"

text \<open>The number of binary digits of \<open>m\<close> (\<^verbatim>\<open>int.bit_length\<close>).\<close>

fun bit_length :: "nat \<Rightarrow> nat" where
  "bit_length m = (if m = 0 then 0 else Suc (bit_length (m div 2)))"

declare bit_length.simps [simp del]

text \<open>\<open>m / 2 ^ d\<close> rounded to the nearest integer, a tie to the even one.\<close>

definition round_half_even :: "nat \<Rightarrow> nat \<Rightarrow> nat" where
  "round_half_even m d =
     (let h = m div 2 ^ d; l = m mod 2 ^ d
      in if 2 ^ d < 2 * l \<or> (2 * l = 2 ^ d \<and> odd h) then h + 1 else h)"

text \<open>The float nearest to \<open>m * 2 ^ e\<close>. The leading binary digit of \<open>m * 2 ^ e\<close> has the
  weight \<open>2\<close> to the \<open>bit_length m + e - 1\<close>; a float keeps 53 digits from there
  on, but none below \<open>2 ^ (-1074)\<close>, so \<open>2 ^ q\<close> is the weight of the last digit kept.
  When \<open>m * 2 ^ e\<close> has digits below it they are rounded away (to zero, when the
  product is too small); a result of \<open>2 ^ 1024\<close> or more is an infinity.\<close>

definition round_to_double :: "bool \<Rightarrow> nat \<Rightarrow> int \<Rightarrow> pyfloat" where
  "round_to_double s m e =
     (let q = max (int (bit_length m) + e - 53) (- 1074);
          (k, x) = (if q \<le> e then (m, e) else (round_half_even m (nat (q - e)), q))
      in if 1024 < int (bit_length k) + x then Infinity s else Finite s k x)"

text \<open>\<^verbatim>\<open>a * b\<close> on two floats: the exact product, rounded. Infinity times zero
  is nan.\<close>

fun float_mul :: "pyfloat \<Rightarrow> pyfloat \<Rightarrow> pyfloat" where
  "float_mul (Finite s m e) (Finite t n f) = round_to_double (s \<noteq> t) (m * n) (e + f)"
| "float_mul (Finite s m e) (Infinity t) = (if m = 0 then NaN else Infinity (s \<noteq> t))"
| "float_mul (Infinity s) (Finite t n f) = (if n = 0 then NaN else Infinity (s \<noteq> t))"
| "float_mul (Infinity s) (Infinity t) = Infinity (s \<noteq> t)"
| "float_mul NaN y = NaN"
| "float_mul x NaN = NaN"

text \<open>\<^verbatim>\<open>a == b\<close> and \<^verbatim>\<open>a > b\<close> on two floats: nan is neither equal to anything nor
  greater or smaller than anything, and \<^verbatim>\<open>-0.0 == 0.0\<close>.\<close>

fun float_eq :: "pyfloat \<Rightarrow> pyfloat \<Rightarrow> bool" where
  "float_eq (Finite s m e) (Finite t n f) = (float_val (Finite s m e) = float_val (Finite t n f))"
| "float_eq (Infinity s) (Infinity t) = (s = t)"
| "float_eq x y = False"

fun float_gt :: "pyfloat \<Rightarrow> pyfloat \<Rightarrow> bool" where
  "float_gt (Finite s m e) (Finite t n f) = (float_val (Finite t n f) < float_val (Finite s m e))"
| "float_gt (Finite s m e) (Infinity t) = t"
| "float_gt (Infinity s) (Finite t n f) = (\<not> s)"
| "float_gt (Infinity s) (Infinity t) = (\<not> s \<and> t)"
| "float_gt x y = False"

text \<open>Python's \<open>>\<close> on pairs of a float and a label: the first components that are
  not \<^verbatim>\<open>==\<close> decide. (Python takes an object to be \<^verbatim>\<open>==\<close> to itself without
  comparing. The floats of two pairs that \<^verbatim>\<open>max\<close> compares are different objects,
  unless a label occurs twice in \<^verbatim>\<open>states\<close>; the labels are then equal as well and
  neither pair is greater, which is what the definition gives.)\<close>

fun fl_tuple_gt :: "pyfloat \<times> 's::linorder \<Rightarrow> pyfloat \<times> 's \<Rightarrow> bool" where
  "fl_tuple_gt (p, s) (q, r) =
     (if \<not> float_eq p q then float_gt p q else if s \<noteq> r then s > r else False)"

fun fl_py_max :: "(pyfloat \<times> 's::linorder) list \<Rightarrow> error + (pyfloat \<times> 's)" where
  "fl_py_max [] = Inl ValueError"
| "fl_py_max (x # xs) = Inr (foldl (\<lambda>m y. if fl_tuple_gt y m then y else m) x xs)"

text \<open>The validator and the decoder once more, line by line as in the first model,
  over tables of floats: products are \<open>float_mul\<close>, and \<^verbatim>\<open>max\<close> compares with
  \<open>fl_tuple_gt\<close>.\<close>

type_synonym 's fl_start_table = "'s \<rightharpoonup> pyfloat"
type_synonym 's fl_trans_table = "'s \<rightharpoonup> ('s \<rightharpoonup> pyfloat)"
type_synonym ('s, 'o) fl_emit_table = "'s \<rightharpoonup> ('o \<rightharpoonup> pyfloat)"
type_synonym 's fl_trellis = "('s \<rightharpoonup> pyfloat) list"

definition fl_validate_input ::
  "'o py_seq \<Rightarrow> 's py_seq \<Rightarrow> 's fl_start_table \<Rightarrow> 's fl_trans_table
     \<Rightarrow> ('s, 'o) fl_emit_table \<Rightarrow> error + unit" where
  "fl_validate_input observations states start_prob trans_prob emit_prob =
     and_then (py_assert (is_list_or_tuple observations)
                 ''Observations must be a list or tuple.'') (\<lambda>_.
     and_then (py_assert (is_list_or_tuple states)
                 ''States must be a list or tuple.'') (\<lambda>_.
     and_then (py_assert (dom start_prob = set (items states))
                 ''Start probabilities must match states.'') (\<lambda>_.
     and_then (py_assert (dom trans_prob = set (items states))
                 ''Transition probabilities must match states.'') (\<lambda>_.
     and_then (py_all (\<lambda>s. and_then (subscript trans_prob s)
                            (\<lambda>row. Inr (dom row = set (items states))))
                 (items states)) (\<lambda>ok.
     and_then (py_assert ok
                 ''Transition probabilities must be defined for all states.'') (\<lambda>_.
     and_then (py_assert (dom emit_prob = set (items states))
                 ''Emission probabilities must match states.'') (\<lambda>_.
     and_then (py_all (\<lambda>s. and_then (subscript emit_prob s)
                            (\<lambda>row. Inr (dom row = set (items observations))))
                 (items states)) (\<lambda>ok.
     py_assert ok
       ''Emission probabilities must be defined for all observations.''))))))))"

definition fl_init_step ::
  "'o list \<Rightarrow> 's fl_start_table \<Rightarrow> ('s, 'o) fl_emit_table \<Rightarrow> 's
     \<Rightarrow> 's fl_trellis \<times> 's path_table \<Rightarrow> error + ('s fl_trellis \<times> 's path_table)" where
  "fl_init_step observations start_prob emit_prob state = (\<lambda>(V, path).
     and_then (subscript start_prob state) (\<lambda>a.
     and_then (subscript emit_prob state) (\<lambda>row.
     and_then (item observations 0) (\<lambda>ob.
     and_then (subscript row ob) (\<lambda>b.
     and_then (item V 0) (\<lambda>V0.
     Inr (V[0 := V0(state \<mapsto> float_mul a b)], path(state \<mapsto> [state]))))))))"

definition fl_candidate ::
  "'s fl_trellis \<Rightarrow> nat \<Rightarrow> 's fl_trans_table \<Rightarrow> ('s, 'o) fl_emit_table \<Rightarrow> 'o list \<Rightarrow> 's \<Rightarrow> 's
     \<Rightarrow> error + (pyfloat \<times> 's)" where
  "fl_candidate V t trans_prob emit_prob observations current_state prev_state =
     and_then (item V (t - 1)) (\<lambda>layer.
     and_then (subscript layer prev_state) (\<lambda>v.
     and_then (subscript trans_prob prev_state) (\<lambda>trow.
     and_then (subscript trow current_state) (\<lambda>a.
     and_then (subscript emit_prob current_state) (\<lambda>erow.
     and_then (item observations t) (\<lambda>ob.
     and_then (subscript erow ob) (\<lambda>b.
     Inr (float_mul (float_mul v a) b, prev_state))))))))"

definition fl_max_previous ::
  "'s fl_trellis \<Rightarrow> nat \<Rightarrow> 's::linorder list \<Rightarrow> 's fl_trans_table \<Rightarrow> ('s, 'o) fl_emit_table
     \<Rightarrow> 'o list \<Rightarrow> 's \<Rightarrow> error + (pyfloat \<times> 's)" where
  "fl_max_previous V t states trans_prob emit_prob observations current_state =
     and_then (generate (fl_candidate V t trans_prob emit_prob observations current_state)
                 states) fl_py_max"

definition fl_state_step ::
  "nat \<Rightarrow> 's::linorder list \<Rightarrow> 's fl_trans_table \<Rightarrow> ('s, 'o) fl_emit_table \<Rightarrow> 'o list
     \<Rightarrow> 's path_table \<Rightarrow> 's
     \<Rightarrow> 's fl_trellis \<times> 's path_table \<Rightarrow> error + ('s fl_trellis \<times> 's path_table)" where
  "fl_state_step t states trans_prob emit_prob observations path current_state =
     (\<lambda>(V, new_path).
     and_then (fl_max_previous V t states trans_prob emit_prob observations current_state)
       (\<lambda>(max_prob, prev_st).
     and_then (item V t) (\<lambda>layer.
     and_then (subscript path prev_st) (\<lambda>best_prev.
     Inr (V[t := layer(current_state \<mapsto> max_prob)],
          new_path(current_state \<mapsto> best_prev @ [current_state]))))))"

definition fl_time_step ::
  "'s::linorder list \<Rightarrow> 's fl_trans_table \<Rightarrow> ('s, 'o) fl_emit_table \<Rightarrow> 'o list \<Rightarrow> nat
     \<Rightarrow> 's fl_trellis \<times> 's path_table \<Rightarrow> error + ('s fl_trellis \<times> 's path_table)" where
  "fl_time_step states trans_prob emit_prob observations t = (\<lambda>(V, path).
     for_each states (fl_state_step t states trans_prob emit_prob observations path)
       (V @ [Map.empty], Map.empty))"

definition fl_build_tables ::
  "'o list \<Rightarrow> 's::linorder list \<Rightarrow> 's fl_start_table \<Rightarrow> 's fl_trans_table
     \<Rightarrow> ('s, 'o) fl_emit_table \<Rightarrow> error + ('s fl_trellis \<times> 's path_table)" where
  "fl_build_tables observations states start_prob trans_prob emit_prob =
     and_then (for_each states (fl_init_step observations start_prob emit_prob)
                 ([Map.empty], Map.empty)) (\<lambda>(V, path).
     for_each [1..<length observations]
       (fl_time_step states trans_prob emit_prob observations) (V, path))"

definition fl_final_candidate :: "'s fl_trellis \<Rightarrow> 's \<Rightarrow> error + (pyfloat \<times> 's)" where
  "fl_final_candidate V state =
     and_then (last_item V) (\<lambda>layer.
     and_then (subscript layer state) (\<lambda>v. Inr (v, state)))"

definition fl_max_final ::
  "'s fl_trellis \<Rightarrow> 's::linorder list \<Rightarrow> error + (pyfloat \<times> 's)" where
  "fl_max_final V states = and_then (generate (fl_final_candidate V) states) fl_py_max"

definition fl_viterbi ::
  "'o py_seq \<Rightarrow> 's::linorder py_seq \<Rightarrow> 's fl_start_table \<Rightarrow> 's fl_trans_table
     \<Rightarrow> ('s, 'o) fl_emit_table \<Rightarrow> error + (pyfloat \<times> 's list)" where
  "fl_viterbi observations states start_prob trans_prob emit_prob =
     and_then (fl_validate_input observations states start_prob trans_prob emit_prob) (\<lambda>_.
     and_then (fl_build_tables (items observations) (items states)
                 start_prob trans_prob emit_prob) (\<lambda>(V, path).
     and_then (fl_max_final V (items states)) (\<lambda>(max_prob, final_state).
     and_then (subscript path final_state) (\<lambda>best_path.
     Inr (max_prob, best_path)))))"

text \<open>The exact values of the entries of a table of finite floats.\<close>

definition real_table :: "('k \<rightharpoonup> pyfloat) \<Rightarrow> ('k \<rightharpoonup> real)" where
  "real_table row = (\<lambda>k. map_option float_val (row k))"

definition real_rows :: "('s \<rightharpoonup> ('k \<rightharpoonup> pyfloat)) \<Rightarrow> ('s \<rightharpoonup> ('k \<rightharpoonup> real))" where
  "real_rows table = (\<lambda>s. map_option real_table (table s))"

text \<open>The entries of the validated tables, and the key-set conditions of the
  validator on tables of floats.\<close>

definition fl_start_of :: "'s fl_start_table \<Rightarrow> 's \<Rightarrow> pyfloat" where
  "fl_start_of start_prob s = the (start_prob s)"

definition fl_trans_of :: "'s fl_trans_table \<Rightarrow> 's \<Rightarrow> 's \<Rightarrow> pyfloat" where
  "fl_trans_of trans_prob p c = the (the (trans_prob p) c)"

definition fl_emit_of :: "('s, 'o) fl_emit_table \<Rightarrow> 's \<Rightarrow> 'o \<Rightarrow> pyfloat" where
  "fl_emit_of emit_prob s ob = the (the (emit_prob s) ob)"

definition fl_valid_tables ::
  "'o list \<Rightarrow> 's list \<Rightarrow> 's fl_start_table \<Rightarrow> 's fl_trans_table \<Rightarrow> ('s, 'o) fl_emit_table
     \<Rightarrow> bool" where
  "fl_valid_tables observations states start_prob trans_prob emit_prob \<longleftrightarrow>
     valid_tables observations states
       (real_table start_prob) (real_rows trans_prob) (real_rows emit_prob)"

text \<open>The closed form of what the two loops store, as \<open>best\<close> in the first model.\<close>

primrec fl_best ::
  "'o list \<Rightarrow> 's::linorder list \<Rightarrow> 's fl_start_table \<Rightarrow> 's fl_trans_table
     \<Rightarrow> ('s, 'o) fl_emit_table \<Rightarrow> nat \<Rightarrow> 's \<Rightarrow> pyfloat \<times> 's list" where
  "fl_best obs states sp tp ep 0 =
     (\<lambda>s. (float_mul (fl_start_of sp s) (fl_emit_of ep s (obs ! 0)), [s]))"
| "fl_best obs states sp tp ep (Suc t) = (\<lambda>c.
     case fl_py_max (map (\<lambda>p. (float_mul (float_mul (fst (fl_best obs states sp tp ep t p))
                                            (fl_trans_of tp p c))
                                   (fl_emit_of ep c (obs ! Suc t)), p)) states) of
       Inl e \<Rightarrow> (NaN, [])
     | Inr (m, q) \<Rightarrow> (m, snd (fl_best obs states sp tp ep t q) @ [c]))"

definition fl_layers ::
  "'o list \<Rightarrow> 's::linorder list \<Rightarrow> 's fl_start_table \<Rightarrow> 's fl_trans_table
     \<Rightarrow> ('s, 'o) fl_emit_table \<Rightarrow> nat \<Rightarrow> 's fl_trellis" where
  "fl_layers obs states sp tp ep n =
     map (\<lambda>i. on_states states (\<lambda>s. fst (fl_best obs states sp tp ep i s))) [0..<n]"

definition fl_paths ::
  "'o list \<Rightarrow> 's::linorder list \<Rightarrow> 's fl_start_table \<Rightarrow> 's fl_trans_table
     \<Rightarrow> ('s, 'o) fl_emit_table \<Rightarrow> nat \<Rightarrow> 's path_table" where
  "fl_paths obs states sp tp ep t =
     on_states states (\<lambda>s. snd (fl_best obs states sp tp ep t s))"

text \<open>The product the code forms for the first \<open>t + 1\<close> states of a sequence, in the
  order in which it forms it.\<close>

primrec fl_prefix ::
  "'s fl_start_table \<Rightarrow> 's fl_trans_table \<Rightarrow> ('s, 'o) fl_emit_table \<Rightarrow> 'o list \<Rightarrow> 's list
     \<Rightarrow> nat \<Rightarrow> pyfloat" where
  "fl_prefix sp tp ep obs ss 0 =
     float_mul (fl_start_of sp (ss ! 0)) (fl_emit_of ep (ss ! 0) (obs ! 0))"
| "fl_prefix sp tp ep obs ss (Suc t) =
     float_mul (float_mul (fl_prefix sp tp ep obs ss t) (fl_trans_of tp (ss ! t) (ss ! Suc t)))
       (fl_emit_of ep (ss ! Suc t) (obs ! Suc t))"

text \<open>A product of two finite floats is exact when it is finite and rounding has
  not changed it.\<close>

definition exact_mul :: "pyfloat \<Rightarrow> pyfloat \<Rightarrow> bool" where
  "exact_mul x y \<longleftrightarrow>
     is_finite x \<and> is_finite y \<and> is_finite (float_mul x y) \<and>
     float_val (float_mul x y) = float_val x * float_val y"

text \<open>Every product that the code forms for the first \<open>t + 1\<close> states of a sequence
  is exact; and this holds along every sequence of states, one state for each
  observation.\<close>

primrec exact_prefix ::
  "'s fl_start_table \<Rightarrow> 's fl_trans_table \<Rightarrow> ('s, 'o) fl_emit_table \<Rightarrow> 'o list \<Rightarrow> 's list
     \<Rightarrow> nat \<Rightarrow> bool" where
  "exact_prefix sp tp ep obs ss 0 =
     exact_mul (fl_start_of sp (ss ! 0)) (fl_emit_of ep (ss ! 0) (obs ! 0))"
| "exact_prefix sp tp ep obs ss (Suc t) =
     (exact_prefix sp tp ep obs ss t \<and>
      exact_mul (fl_prefix sp tp ep obs ss t) (fl_trans_of tp (ss ! t) (ss ! Suc t)) \<and>
      exact_mul (float_mul (fl_prefix sp tp ep obs ss t) (fl_trans_of tp (ss ! t) (ss ! Suc t)))
        (fl_emit_of ep (ss ! Suc t) (obs ! Suc t)))"

definition exact_products ::
  "'o list \<Rightarrow> 's list \<Rightarrow> 's fl_start_table \<Rightarrow> 's fl_trans_table \<Rightarrow> ('s, 'o) fl_emit_table
     \<Rightarrow> bool" where
  "exact_products obs states sp tp ep \<longleftrightarrow>
     (\<forall>ss\<in>set (List.n_lists (length obs) states). exact_prefix sp tp ep obs ss (length obs - 1))"

text \<open>The transition and emission entries the decoder reads are finite floats that
  are not negative.\<close>

definition fl_nonneg_tables ::
  "'o list \<Rightarrow> 's list \<Rightarrow> 's fl_trans_table \<Rightarrow> ('s, 'o) fl_emit_table \<Rightarrow> bool" where
  "fl_nonneg_tables observations states trans_prob emit_prob \<longleftrightarrow>
     (\<forall>p\<in>set states. \<forall>c\<in>set states.
        is_finite (fl_trans_of trans_prob p c) \<and> 0 \<le> float_val (fl_trans_of trans_prob p c)) \<and>
     (\<forall>s\<in>set states. \<forall>ob\<in>set observations.
        is_finite (fl_emit_of emit_prob s ob) \<and> 0 \<le> float_val (fl_emit_of emit_prob s ob))"

text \<open>The tables of the example run as floats: the float that Python reads from
  \<^verbatim>\<open>0.6\<close> is \<open>5404319552844595 * 2 ^ (-53)\<close>, and so on.\<close>

definition fl_ex_start_prob :: "string fl_start_table" where
  "fl_ex_start_prob = [''Rainy'' \<mapsto> Finite False 5404319552844595 (- 53),
                       ''Sunny'' \<mapsto> Finite False 3602879701896397 (- 53)]"

definition fl_ex_trans_prob :: "string fl_trans_table" where
  "fl_ex_trans_prob =
     [''Rainy'' \<mapsto> [''Rainy'' \<mapsto> Finite False 3152519739159347 (- 52),
                    ''Sunny'' \<mapsto> Finite False 5404319552844595 (- 54)],
      ''Sunny'' \<mapsto> [''Rainy'' \<mapsto> Finite False 3602879701896397 (- 53),
                    ''Sunny'' \<mapsto> Finite False 5404319552844595 (- 53)]]"

definition fl_ex_emit_prob :: "(string, string) fl_emit_table" where
  "fl_ex_emit_prob =
     [''Rainy'' \<mapsto> [''walk'' \<mapsto> Finite False 3602879701896397 (- 55),
                    ''shop'' \<mapsto> Finite False 3602879701896397 (- 53),
                    ''clean'' \<mapsto> Finite False 1 (- 1)],
      ''Sunny'' \<mapsto> [''walk'' \<mapsto> Finite False 5404319552844595 (- 53),
                    ''shop'' \<mapsto> Finite False 5404319552844595 (- 54),
                    ''clean'' \<mapsto> Finite False 3602879701896397 (- 55)]]"

text \<open>The example run with tables of halves, quarters and eighths: no product along
  any of the eight state sequences is rounded.\<close>

definition dy_start_prob :: "string fl_start_table" where
  "dy_start_prob = [''Rainy'' \<mapsto> Finite False 1 (- 1), ''Sunny'' \<mapsto> Finite False 1 (- 1)]"

definition dy_trans_prob :: "string fl_trans_table" where
  "dy_trans_prob =
     [''Rainy'' \<mapsto> [''Rainy'' \<mapsto> Finite False 3 (- 2), ''Sunny'' \<mapsto> Finite False 1 (- 2)],
      ''Sunny'' \<mapsto> [''Rainy'' \<mapsto> Finite False 1 (- 1), ''Sunny'' \<mapsto> Finite False 1 (- 1)]]"

definition dy_emit_prob :: "(string, string) fl_emit_table" where
  "dy_emit_prob =
     [''Rainy'' \<mapsto> [''walk'' \<mapsto> Finite False 1 (- 3), ''shop'' \<mapsto> Finite False 3 (- 3),
                    ''clean'' \<mapsto> Finite False 1 (- 1)],
      ''Sunny'' \<mapsto> [''walk'' \<mapsto> Finite False 1 (- 1), ''shop'' \<mapsto> Finite False 1 (- 2),
                    ''clean'' \<mapsto> Finite False 1 (- 2)]]"

text \<open>The tables of the input with negative entries (start 1.0 and 2.0, every
  transition -1.0, every emission 1.0), and an input whose products fall below the
  smallest positive float: two observations, start \<open>2 ^ (-600)\<close> and \<open>2 ^ (-700)\<close>, every
  transition \<open>2 ^ (-600)\<close>, every emission 1.0.\<close>

definition fl_neg_start_prob :: "string fl_start_table" where
  "fl_neg_start_prob = [''A'' \<mapsto> Finite False 1 0, ''B'' \<mapsto> Finite False 2 0]"

definition fl_neg_trans_prob :: "string fl_trans_table" where
  "fl_neg_trans_prob = [''A'' \<mapsto> [''A'' \<mapsto> Finite True 1 0, ''B'' \<mapsto> Finite True 1 0],
                        ''B'' \<mapsto> [''A'' \<mapsto> Finite True 1 0, ''B'' \<mapsto> Finite True 1 0]]"

definition fl_neg_emit_prob :: "(string, string) fl_emit_table" where
  "fl_neg_emit_prob = [''A'' \<mapsto> [''x'' \<mapsto> Finite False 1 0], ''B'' \<mapsto> [''x'' \<mapsto> Finite False 1 0]]"

definition tiny_observations :: "string py_seq" where
  "tiny_observations = PyTuple [''x'', ''x'']"

definition tiny_start_prob :: "string fl_start_table" where
  "tiny_start_prob = [''A'' \<mapsto> Finite False 1 (- 600), ''B'' \<mapsto> Finite False 1 (- 700)]"

definition tiny_trans_prob :: "string fl_trans_table" where
  "tiny_trans_prob =
     [''A'' \<mapsto> [''A'' \<mapsto> Finite False 1 (- 600), ''B'' \<mapsto> Finite False 1 (- 600)],
      ''B'' \<mapsto> [''A'' \<mapsto> Finite False 1 (- 600), ''B'' \<mapsto> Finite False 1 (- 600)]]"

section \<open>Exceptions and containers: basic facts\<close>

lemma and_then_simps [simp]:
  "and_then (Inr x) f = f x"
  "and_then (Inl e) f = Inl e"
  by (simp_all add: and_then_def)

lemma and_then_Inr_iff:
  "and_then r f = Inr y \<longleftrightarrow> (\<exists>x. r = Inr x \<and> f x = Inr y)"
  by (cases r) simp_all

lemma generate_map:
  "(\<And>x. x \<in> set xs \<Longrightarrow> f x = Inr (g x)) \<Longrightarrow> generate f xs = Inr (map g xs)"
  by (induction xs) simp_all

lemma py_all_total:
  "(\<And>x. x \<in> set xs \<Longrightarrow> f x = Inr (P x)) \<Longrightarrow> py_all f xs = Inr (\<forall>x\<in>set xs. P x)"
  by (induction xs) simp_all

lemma tuple_gt_iff:
  "tuple_gt x y \<longleftrightarrow> fst y < fst x \<or> (fst x = fst y \<and> snd y < snd x)"
  by (cases x; cases y) auto

lemma running_max:
  "foldl (\<lambda>m y. if tuple_gt y m then y else m) x xs \<in> set (x # xs) \<and>
   (\<forall>y\<in>set (x # xs). \<not> tuple_gt y (foldl (\<lambda>m y. if tuple_gt y m then y else m) x xs))"
proof (induction xs arbitrary: x)
  case Nil
  show ?case by (simp add: tuple_gt_iff)
next
  case (Cons a xs)
  let ?x' = "if tuple_gt a x then a else x"
  let ?r = "foldl (\<lambda>m y. if tuple_gt y m then y else m) ?x' xs"
  from Cons.IH [of ?x'] have mem: "?r \<in> set (?x' # xs)"
    and ub: "\<forall>y\<in>set (?x' # xs). \<not> tuple_gt y ?r" by blast+
  from ub have x': "\<not> tuple_gt ?x' ?r" by simp
  have "\<not> tuple_gt x ?r" "\<not> tuple_gt a ?r"
    using x' by (auto simp: tuple_gt_iff split: if_splits)
  with mem ub show ?case by (auto split: if_splits)
qed

lemma py_max_nonempty:
  assumes "xs \<noteq> []"
  shows "\<exists>m. py_max xs = Inr m \<and> m \<in> set xs \<and> (\<forall>y\<in>set xs. \<not> tuple_gt y m)"
proof (cases xs)
  case Nil
  with assms show ?thesis by simp
next
  case (Cons x xs')
  with running_max [of x xs'] show ?thesis by simp
qed

lemma py_max_InrD:
  assumes "py_max xs = Inr m"
  shows "m \<in> set xs \<and> (\<forall>y\<in>set xs. \<not> tuple_gt y m)"
proof -
  from assms have "xs \<noteq> []" by auto
  from py_max_nonempty [OF this] assms show ?thesis by auto
qed

section \<open>What the validator accepts\<close>

lemma py_all_inner_keys:
  assumes "dom table = set states"
  shows "py_all (\<lambda>s. and_then (subscript table s) (\<lambda>row. Inr (dom row = keys))) states
           = Inr (inner_keys table states keys)"
proof -
  have "\<And>s. s \<in> set states \<Longrightarrow>
      and_then (subscript table s) (\<lambda>row. Inr (dom row = keys))
        = Inr (case table s of None \<Rightarrow> False | Some row \<Rightarrow> dom row = keys)"
    using assms by (auto simp: subscript_def split: option.splits)
  then show ?thesis
    unfolding inner_keys_def by (rule py_all_total)
qed

lemma validate_input_Inr_iff:
  "validate_input observations states start_prob trans_prob emit_prob = Inr () \<longleftrightarrow>
     is_list_or_tuple observations \<and> is_list_or_tuple states \<and>
     valid_tables (items observations) (items states) start_prob trans_prob emit_prob"
  by (auto simp: validate_input_def valid_tables_def py_assert_def py_all_inner_keys)

lemma inner_keysD:
  assumes "inner_keys table states keys" "s \<in> set states" "k \<in> keys"
  shows "\<exists>row v. table s = Some row \<and> row k = Some v"
proof -
  from assms(1,2) obtain row where row: "table s = Some row" "dom row = keys"
    by (auto simp: inner_keys_def split: option.splits)
  with assms(3) have "k \<in> dom row" by simp
  then obtain v where "row k = Some v" by blast
  with row show ?thesis by blast
qed

lemma valid_tables_start:
  assumes "valid_tables obs states sp tp ep" "s \<in> set states"
  shows "sp s = Some (start_of sp s)"
proof -
  from assms have "s \<in> dom sp" by (simp add: valid_tables_def)
  then show ?thesis by (auto simp: start_of_def)
qed

lemma valid_tables_trans:
  assumes "valid_tables obs states sp tp ep" "p \<in> set states" "c \<in> set states"
  shows "\<exists>row. tp p = Some row \<and> row c = Some (trans_of tp p c)"
proof -
  from assms(1) have "inner_keys tp states (set states)" by (simp add: valid_tables_def)
  from inner_keysD [OF this assms(2,3)] show ?thesis by (auto simp: trans_of_def)
qed

lemma valid_tables_emit:
  assumes "valid_tables obs states sp tp ep" "s \<in> set states" "ob \<in> set obs"
  shows "\<exists>row. ep s = Some row \<and> row ob = Some (emit_of ep s ob)"
proof -
  from assms(1) have "inner_keys ep states (set obs)" by (simp add: valid_tables_def)
  from inner_keysD [OF this assms(2,3)] show ?thesis by (auto simp: emit_of_def)
qed

section \<open>The tables the loops build\<close>

lemma init_loop:
  assumes "valid_tables obs states sp tp ep" "obs \<noteq> []" "set xs \<subseteq> set states"
  shows "for_each xs (init_step obs sp ep) ([V0], path) =
           Inr ([\<lambda>s. if s \<in> set xs then Some (fst (best obs states sp tp ep 0 s)) else V0 s],
                \<lambda>s. if s \<in> set xs then Some (snd (best obs states sp tp ep 0 s)) else path s)"
  using assms(3)
proof (induction xs arbitrary: V0 path)
  case Nil
  then show ?case by simp
next
  case (Cons x xs)
  from Cons.prems have x: "x \<in> set states" and xs: "set xs \<subseteq> set states" by simp_all
  from assms(2) have ob: "obs ! 0 \<in> set obs" by simp
  obtain row where row: "ep x = Some row" "row (obs ! 0) = Some (emit_of ep x (obs ! 0))"
    using valid_tables_emit [OF assms(1) x ob] by blast
  have step: "init_step obs sp ep x ([V0], path) =
      Inr ([V0(x \<mapsto> start_of sp x * emit_of ep x (obs ! 0))], path(x \<mapsto> [x]))"
    using assms(2) row valid_tables_start [OF assms(1) x]
    by (simp add: init_step_def subscript_def item_def)
  show ?case
    by (simp add: step Cons.IH [OF xs]) (auto simp: fun_eq_iff)
qed

lemma max_previous_value:
  assumes valid: "valid_tables obs states sp tp ep"
    and t: "Suc t < length obs"
    and len: "length Vs = Suc t"
    and prev: "Vs ! t = on_states states (\<lambda>s. fst (best obs states sp tp ep t s))"
    and c: "c \<in> set states"
  shows "max_previous (Vs @ [L]) (Suc t) states tp ep obs c =
           py_max (map (\<lambda>p. (fst (best obs states sp tp ep t p) * trans_of tp p c
                               * emit_of ep c (obs ! Suc t), p)) states)"
proof -
  let ?g = "\<lambda>p. (fst (best obs states sp tp ep t p) * trans_of tp p c
                    * emit_of ep c (obs ! Suc t), p)"
  from t have ob: "obs ! Suc t \<in> set obs" by simp
  obtain erow where erow: "ep c = Some erow"
      "erow (obs ! Suc t) = Some (emit_of ep c (obs ! Suc t))"
    using valid_tables_emit [OF valid c ob] by blast
  have cand: "candidate (Vs @ [L]) (Suc t) tp ep obs c p = Inr (?g p)"
    if p: "p \<in> set states" for p
  proof -
    obtain trow where "tp p = Some trow" "trow c = Some (trans_of tp p c)"
      using valid_tables_trans [OF valid p c] by blast
    then show ?thesis
      using t len prev p erow
      by (simp add: candidate_def item_def subscript_def nth_append on_states_def)
  qed
  have "generate (candidate (Vs @ [L]) (Suc t) tp ep obs c) states = Inr (map ?g states)"
    by (rule generate_map) (rule cand)
  then show ?thesis by (simp add: max_previous_def)
qed

lemma best_Suc_choice:
  assumes c: "c \<in> set states"
  shows "\<exists>m q. py_max (map (\<lambda>p. (fst (best obs states sp tp ep t p) * trans_of tp p c
                               * emit_of ep c (obs ! Suc t), p)) states) = Inr (m, q)
           \<and> q \<in> set states
           \<and> m = fst (best obs states sp tp ep t q) * trans_of tp q c
                    * emit_of ep c (obs ! Suc t)
           \<and> (\<forall>p\<in>set states.
                 \<not> tuple_gt (fst (best obs states sp tp ep t p) * trans_of tp p c
                               * emit_of ep c (obs ! Suc t), p) (m, q))
           \<and> best obs states sp tp ep (Suc t) c
               = (m, snd (best obs states sp tp ep t q) @ [c])"
proof -
  let ?g = "\<lambda>p. (fst (best obs states sp tp ep t p) * trans_of tp p c
                    * emit_of ep c (obs ! Suc t), p)"
  from c have "states \<noteq> []" by (cases states) simp_all
  then have "map ?g states \<noteq> []" by simp
  from py_max_nonempty [OF this] obtain mq where
    mq: "py_max (map ?g states) = Inr mq" "mq \<in> set (map ?g states)"
      "\<forall>y\<in>set (map ?g states). \<not> tuple_gt y mq"
    by (elim exE conjE)
  obtain m q where eq: "mq = (m, q)" by (cases mq)
  from mq(2) eq have q: "q \<in> set states" and m: "m = fst (?g q)" by auto
  from mq(3) eq have ub: "\<forall>p\<in>set states. \<not> tuple_gt (?g p) (m, q)" by simp
  have "best obs states sp tp ep (Suc t) c = (m, snd (best obs states sp tp ep t q) @ [c])"
    using mq(1) eq by simp
  with mq(1) eq q m ub show ?thesis by simp
qed

lemma state_step_value:
  assumes valid: "valid_tables obs states sp tp ep"
    and t: "Suc t < length obs"
    and len: "length Vs = Suc t"
    and prev: "Vs ! t = on_states states (\<lambda>s. fst (best obs states sp tp ep t s))"
    and c: "c \<in> set states"
  shows "state_step (Suc t) states tp ep obs (paths obs states sp tp ep t) c (Vs @ [L], np) =
           Inr (Vs @ [L(c \<mapsto> fst (best obs states sp tp ep (Suc t) c))],
                np(c \<mapsto> snd (best obs states sp tp ep (Suc t) c)))"
proof -
  from best_Suc_choice [OF c, of obs sp tp ep t] obtain m q where
    mx: "py_max (map (\<lambda>p. (fst (best obs states sp tp ep t p) * trans_of tp p c
                               * emit_of ep c (obs ! Suc t), p)) states) = Inr (m, q)"
    and q: "q \<in> set states"
    and bst: "best obs states sp tp ep (Suc t) c
               = (m, snd (best obs states sp tp ep t q) @ [c])"
    by blast
  have upd: "(Vs @ [L])[Suc t := X] = Vs @ [X]" for X
    unfolding len [symmetric] by simp
  have sel: "max_previous (Vs @ [L]) (Suc t) states tp ep obs c = Inr (m, q)"
    unfolding max_previous_value [OF valid t len prev c] by (rule mx)
  show ?thesis
    unfolding state_step_def
    using len q
    by (simp add: sel bst item_def subscript_def nth_append paths_def on_states_def upd
        del: best.simps)
qed

lemma state_loop:
  assumes valid: "valid_tables obs states sp tp ep"
    and t: "Suc t < length obs"
    and len: "length Vs = Suc t"
    and prev: "Vs ! t = on_states states (\<lambda>s. fst (best obs states sp tp ep t s))"
    and xs: "set xs \<subseteq> set states"
  shows "for_each xs (state_step (Suc t) states tp ep obs (paths obs states sp tp ep t))
           (Vs @ [L], np) =
         Inr (Vs @ [\<lambda>c. if c \<in> set xs then Some (fst (best obs states sp tp ep (Suc t) c))
                         else L c],
              \<lambda>c. if c \<in> set xs then Some (snd (best obs states sp tp ep (Suc t) c))
                   else np c)"
  using xs
proof (induction xs arbitrary: L np)
  case Nil
  show ?case by simp
next
  case (Cons x xs)
  from Cons.prems have x: "x \<in> set states" and xs: "set xs \<subseteq> set states" by simp_all
  show ?case
    by (simp add: state_step_value [OF valid t len prev x] Cons.IH [OF xs] del: best.simps)
       (auto simp: fun_eq_iff)
qed

lemma layers_Suc:
  "layers obs states sp tp ep (Suc n) =
     layers obs states sp tp ep n
       @ [on_states states (\<lambda>s. fst (best obs states sp tp ep n s))]"
  by (simp add: layers_def)

lemma length_layers [simp]: "length (layers obs states sp tp ep n) = n"
  by (simp add: layers_def)

lemma nth_layers:
  "i < n \<Longrightarrow> layers obs states sp tp ep n ! i
     = on_states states (\<lambda>s. fst (best obs states sp tp ep i s))"
  by (simp add: layers_def)

lemma time_step_value:
  assumes valid: "valid_tables obs states sp tp ep" and t: "Suc t < length obs"
  shows "time_step states tp ep obs (Suc t)
           (layers obs states sp tp ep (Suc t), paths obs states sp tp ep t) =
         Inr (layers obs states sp tp ep (Suc (Suc t)), paths obs states sp tp ep (Suc t))"
proof -
  have "for_each states (state_step (Suc t) states tp ep obs (paths obs states sp tp ep t))
          (layers obs states sp tp ep (Suc t) @ [Map.empty], Map.empty) =
        Inr (layers obs states sp tp ep (Suc t)
               @ [on_states states (\<lambda>s. fst (best obs states sp tp ep (Suc t) s))],
             on_states states (\<lambda>s. snd (best obs states sp tp ep (Suc t) s)))"
    unfolding on_states_def
    by (rule state_loop [OF valid t]) (simp_all add: nth_layers on_states_def)
  then show ?thesis
    by (simp add: time_step_def layers_Suc [of _ _ _ _ _ "Suc t"] paths_def del: best.simps)
qed

lemma time_loop:
  assumes valid: "valid_tables obs states sp tp ep" and k: "k < length obs"
  shows "for_each [Suc k..<length obs] (time_step states tp ep obs)
           (layers obs states sp tp ep (Suc k), paths obs states sp tp ep k) =
         Inr (layers obs states sp tp ep (length obs),
              paths obs states sp tp ep (length obs - 1))"
  using k
proof (induction "length obs - Suc k" arbitrary: k)
  case 0
  then have "Suc k = length obs" by simp
  then have "[Suc k..<length obs] = []" "length obs - 1 = k" by simp_all
  with \<open>Suc k = length obs\<close> show ?case by simp
next
  case (Suc n)
  then have t: "Suc k < length obs" by simp
  from Suc(1) [of "Suc k"] Suc(2) t
  have IH: "for_each [Suc (Suc k)..<length obs] (time_step states tp ep obs)
           (layers obs states sp tp ep (Suc (Suc k)), paths obs states sp tp ep (Suc k)) =
         Inr (layers obs states sp tp ep (length obs),
              paths obs states sp tp ep (length obs - 1))"
    by simp
  show ?case
    by (simp add: upt_conv_Cons [OF t] time_step_value [OF valid t] IH del: best.simps)
qed

lemma build_tables_value:
  assumes valid: "valid_tables obs states sp tp ep" and obs: "obs \<noteq> []"
  shows "build_tables obs states sp tp ep =
           Inr (layers obs states sp tp ep (length obs),
                paths obs states sp tp ep (length obs - 1))"
proof -
  have "for_each states (init_step obs sp ep) ([Map.empty], Map.empty) =
          Inr (layers obs states sp tp ep (Suc 0), paths obs states sp tp ep 0)"
    unfolding init_loop [OF valid obs subset_refl]
    by (simp add: layers_def paths_def on_states_def cong: if_cong)
  moreover from obs have "0 < length obs" by simp
  ultimately show ?thesis
    using time_loop [OF valid \<open>0 < length obs\<close>] by (simp add: build_tables_def)
qed

section \<open>What the decoder returns\<close>

lemma max_final_value:
  assumes obs: "obs \<noteq> []"
  shows "max_final (layers obs states sp tp ep (length obs)) states =
           py_max (map (\<lambda>s. (fst (best obs states sp tp ep (length obs - 1) s), s)) states)"
proof -
  from obs obtain n where n: "length obs = Suc n" by (cases obs) simp_all
  have "final_candidate (layers obs states sp tp ep (length obs)) s
          = Inr (fst (best obs states sp tp ep (length obs - 1) s), s)"
    if "s \<in> set states" for s
    using that
    by (simp add: final_candidate_def last_item_def layers_Suc n subscript_def on_states_def
        del: best.simps)
  then have "generate (final_candidate (layers obs states sp tp ep (length obs))) states =
      Inr (map (\<lambda>s. (fst (best obs states sp tp ep (length obs - 1) s), s)) states)"
    by (rule generate_map)
  then show ?thesis by (simp add: max_final_def)
qed

lemma viterbi_value:
  assumes ok: "validate_input observations states sp tp ep = Inr ()"
    and obs: "items observations \<noteq> []" and sts: "items states \<noteq> []"
  shows "\<exists>q\<in>set (items states).
           viterbi observations states sp tp ep =
             Inr (best (items observations) (items states) sp tp ep
                    (length (items observations) - 1) q) \<and>
           (\<forall>s\<in>set (items states).
              \<not> tuple_gt (fst (best (items observations) (items states) sp tp ep
                                 (length (items observations) - 1) s), s)
                          (fst (best (items observations) (items states) sp tp ep
                                 (length (items observations) - 1) q), q))"
proof -
  let ?obs = "items observations" and ?sts = "items states"
  let ?T = "length ?obs - 1"
  let ?g = "\<lambda>s. (fst (best ?obs ?sts sp tp ep ?T s), s)"
  from ok have valid: "valid_tables ?obs ?sts sp tp ep"
    by (simp add: validate_input_Inr_iff)
  from sts have "map ?g ?sts \<noteq> []" by simp
  from py_max_nonempty [OF this] obtain mq where
    mq: "py_max (map ?g ?sts) = Inr mq" "mq \<in> set (map ?g ?sts)"
      "\<forall>y\<in>set (map ?g ?sts). \<not> tuple_gt y mq"
    by (elim exE conjE)
  from mq(2) obtain q where q: "q \<in> set ?sts" and eq: "mq = ?g q" by auto
  have mf: "max_final (layers ?obs ?sts sp tp ep (length ?obs)) ?sts = Inr (?g q)"
    unfolding max_final_value [OF obs] mq(1) eq ..
  have pq: "subscript (paths ?obs ?sts sp tp ep ?T) q = Inr (snd (best ?obs ?sts sp tp ep ?T q))"
    using q by (simp add: subscript_def paths_def on_states_def del: best.simps)
  have "viterbi observations states sp tp ep = Inr (best ?obs ?sts sp tp ep ?T q)"
    unfolding viterbi_def ok and_then_simps build_tables_value [OF valid obs] prod.case mf pq
    by simp
  moreover from mq(3) eq have "\<forall>s\<in>set ?sts. \<not> tuple_gt (?g s) (?g q)" by simp
  ultimately show ?thesis using q by blast
qed

lemma time_loop_no_states:
  "\<exists>r. for_each ts (time_step [] tp ep obs) st = Inr r"
proof (induction ts arbitrary: st)
  case Nil
  show ?case by simp
next
  case (Cons t ts)
  obtain V path where "st = (V, path)" by (cases st)
  then show ?case using Cons.IH by (simp add: time_step_def)
qed

lemma viterbi_no_states:
  assumes ok: "validate_input observations states sp tp ep = Inr ()"
    and sts: "items states = []"
  shows "viterbi observations states sp tp ep = Inl ValueError"
proof -
  obtain r where "build_tables (items observations) [] sp tp ep = Inr r"
    using time_loop_no_states by (fastforce simp: build_tables_def)
  then show ?thesis
    by (cases r) (simp add: viterbi_def ok sts max_final_def)
qed

lemma viterbi_no_observations:
  assumes ok: "validate_input observations states sp tp ep = Inr ()"
    and obs: "items observations = []" and sts: "items states \<noteq> []"
  shows "viterbi observations states sp tp ep = Inl IndexError"
proof -
  from ok have valid: "valid_tables [] (items states) sp tp ep"
    by (simp add: validate_input_Inr_iff obs)
  from sts obtain s rest where eq: "items states = s # rest" by (cases "items states") auto
  then have s: "s \<in> set (items states)" by simp
  from valid s obtain row where "ep s = Some row"
    by (auto simp: valid_tables_def inner_keys_def split: option.splits)
  with valid_tables_start [OF valid s]
  have "init_step [] sp ep s ([Map.empty], Map.empty) = Inl IndexError"
    by (simp add: init_step_def subscript_def item_def)
  then have "build_tables [] (items states) sp tp ep = Inl IndexError"
    by (simp add: build_tables_def eq)
  then show ?thesis by (simp add: viterbi_def ok obs)
qed

lemma validate_input_cases:
  "validate_input observations states sp tp ep = Inr () \<or>
   (\<exists>msg. validate_input observations states sp tp ep = Inl (AssertionError msg))"
  by (auto simp: validate_input_def py_assert_def py_all_inner_keys)

lemma viterbi_invalid:
  "validate_input observations states sp tp ep = Inl e \<Longrightarrow>
     viterbi observations states sp tp ep = Inl e"
  by (simp add: viterbi_def)

lemma viterbi_InrD:
  assumes "viterbi observations states sp tp ep = Inr r"
  shows "validate_input observations states sp tp ep = Inr () \<and>
         items observations \<noteq> [] \<and> items states \<noteq> []"
proof -
  have ok: "validate_input observations states sp tp ep = Inr ()"
    using assms by (cases "validate_input observations states sp tp ep") (simp_all add: viterbi_def)
  moreover have "items states \<noteq> []"
    using viterbi_no_states [OF ok] assms by auto
  moreover have "items observations \<noteq> []"
    using viterbi_no_observations [OF ok] assms \<open>items states \<noteq> []\<close> by auto
  ultimately show ?thesis by simp
qed

lemma best_path_shape:
  "s \<in> set states \<Longrightarrow>
     length (snd (best obs states sp tp ep t s)) = Suc t \<and>
     set (snd (best obs states sp tp ep t s)) \<subseteq> set states \<and>
     last (snd (best obs states sp tp ep t s)) = s"
proof (induction t arbitrary: s)
  case 0
  then show ?case by simp
next
  case (Suc t)
  from best_Suc_choice [OF Suc.prems, of obs sp tp ep t] obtain m q where
    q: "q \<in> set states"
    and bst: "best obs states sp tp ep (Suc t) s
               = (m, snd (best obs states sp tp ep t q) @ [s])"
    by blast
  from Suc.IH [OF q] Suc.prems show ?case by (simp add: bst del: best.simps)
qed

section \<open>Optimality and bounds of the stored values\<close>

lemma path_probability_prefix:
  "path_probability sp tp ep obs ss = prefix_probability sp tp ep obs ss (length obs)"
  by (simp add: path_probability_def prefix_probability_def)

lemma prefix_probability_one:
  "prefix_probability sp tp ep obs ss (Suc 0) = start_of sp (ss ! 0) * emit_of ep (ss ! 0) (obs ! 0)"
  by (simp add: prefix_probability_def)

lemma prefix_probability_Suc:
  "prefix_probability sp tp ep obs ss (Suc (Suc t)) =
     prefix_probability sp tp ep obs ss (Suc t) *
     (trans_of tp (ss ! t) (ss ! Suc t) * emit_of ep (ss ! Suc t) (obs ! Suc t))"
  by (simp add: prefix_probability_def prod.atLeastLessThan_Suc)

lemma prefix_probability_cong:
  assumes "\<And>i. i \<le> t \<Longrightarrow> ss ! i = ss' ! i"
  shows "prefix_probability sp tp ep obs ss (Suc t) = prefix_probability sp tp ep obs ss' (Suc t)"
proof -
  have eq: "ss ! (i - 1) = ss' ! (i - 1)" "ss ! i = ss' ! i" if "i \<in> {1..<Suc t}" for i
  proof -
    from that have "i - 1 \<le> t" "i \<le> t" by auto
    then show "ss ! (i - 1) = ss' ! (i - 1)" "ss ! i = ss' ! i" by (simp_all only: assms)
  qed
  have "(\<Prod>i = 1..<Suc t. trans_of tp (ss ! (i - 1)) (ss ! i) * emit_of ep (ss ! i) (obs ! i))
      = (\<Prod>i = 1..<Suc t. trans_of tp (ss' ! (i - 1)) (ss' ! i) * emit_of ep (ss' ! i) (obs ! i))"
    by (rule prod.cong [OF refl]) (simp only: eq)
  moreover have "ss ! 0 = ss' ! 0" by (rule assms) simp
  ultimately show ?thesis by (simp add: prefix_probability_def)
qed

lemma best_attains:
  "s \<in> set states \<Longrightarrow>
     prefix_probability sp tp ep obs (snd (best obs states sp tp ep t s)) (Suc t)
       = fst (best obs states sp tp ep t s)"
proof (induction t arbitrary: s)
  case 0
  show ?case by (simp add: prefix_probability_one)
next
  case (Suc t)
  from best_Suc_choice [OF Suc.prems, of obs sp tp ep t] obtain m q where
    q: "q \<in> set states"
    and m: "m = fst (best obs states sp tp ep t q) * trans_of tp q s
                  * emit_of ep s (obs ! Suc t)"
    and bst: "best obs states sp tp ep (Suc t) s
               = (m, snd (best obs states sp tp ep t q) @ [s])"
    by blast
  let ?pq = "snd (best obs states sp tp ep t q)"
  from best_path_shape [OF q, of obs sp tp ep t]
  have len: "length ?pq = Suc t" and lst: "last ?pq = q" by simp_all
  from len have ne: "?pq \<noteq> []" by auto
  have nth_t: "(?pq @ [s]) ! t = q"
    using len lst ne by (simp add: nth_append last_conv_nth)
  have nth_Suc: "(?pq @ [s]) ! Suc t = s"
    using len by (simp add: nth_append)
  have "prefix_probability sp tp ep obs (?pq @ [s]) (Suc t)
          = prefix_probability sp tp ep obs ?pq (Suc t)"
    by (rule prefix_probability_cong) (simp add: nth_append len)
  also have "\<dots> = fst (best obs states sp tp ep t q)" by (rule Suc.IH [OF q])
  finally show ?case
    unfolding bst snd_conv fst_conv prefix_probability_Suc nth_t nth_Suc m by simp
qed

lemma best_upper:
  assumes nn: "nonneg_tables obs states tp ep"
  shows "t < length obs \<Longrightarrow> (\<And>i. i \<le> t \<Longrightarrow> ss ! i \<in> set states) \<Longrightarrow>
     prefix_probability sp tp ep obs ss (Suc t) \<le> fst (best obs states sp tp ep t (ss ! t))"
proof (induction t)
  case 0
  show ?case by (simp add: prefix_probability_one)
next
  case (Suc t)
  let ?c = "ss ! Suc t" and ?p = "ss ! t"
  from Suc.prems have c: "?c \<in> set states" and p: "?p \<in> set states" by simp_all
  from Suc.prems have ob: "obs ! Suc t \<in> set obs" by simp
  from best_Suc_choice [OF c, of obs sp tp ep t] obtain m q where
    ub: "\<forall>p\<in>set states.
           \<not> tuple_gt (fst (best obs states sp tp ep t p) * trans_of tp p ?c
                         * emit_of ep ?c (obs ! Suc t), p) (m, q)"
    and bst: "best obs states sp tp ep (Suc t) ?c
               = (m, snd (best obs states sp tp ep t q) @ [?c])"
    by blast
  from nn p c ob have a: "0 \<le> trans_of tp ?p ?c" and b: "0 \<le> emit_of ep ?c (obs ! Suc t)"
    by (simp_all add: nonneg_tables_def)
  have IH: "prefix_probability sp tp ep obs ss (Suc t) \<le> fst (best obs states sp tp ep t ?p)"
    using Suc.prems by (intro Suc.IH) simp_all
  have "prefix_probability sp tp ep obs ss (Suc (Suc t))
      = prefix_probability sp tp ep obs ss (Suc t)
          * (trans_of tp ?p ?c * emit_of ep ?c (obs ! Suc t))"
    by (rule prefix_probability_Suc)
  also have "\<dots> \<le> fst (best obs states sp tp ep t ?p)
                    * (trans_of tp ?p ?c * emit_of ep ?c (obs ! Suc t))"
    using IH a b by (intro mult_right_mono mult_nonneg_nonneg)
  also have "\<dots> \<le> m"
    using ub p by (auto simp: tuple_gt_iff mult.assoc simp del: best.simps)
  finally show ?case unfolding bst fst_conv .
qed

lemma best_unit:
  assumes u: "unit_tables obs states sp tp ep"
  shows "t < length obs \<Longrightarrow> s \<in> set states \<Longrightarrow>
     0 \<le> fst (best obs states sp tp ep t s) \<and> fst (best obs states sp tp ep t s) \<le> 1"
proof (induction t arbitrary: s)
  case 0
  then have ob: "obs ! 0 \<in> set obs" by simp
  from u 0 ob have "0 \<le> start_of sp s" "start_of sp s \<le> 1"
    "0 \<le> emit_of ep s (obs ! 0)" "emit_of ep s (obs ! 0) \<le> 1"
    by (simp_all add: unit_tables_def)
  then show ?case by (simp add: mult_le_one)
next
  case (Suc t)
  from Suc.prems have ob: "obs ! Suc t \<in> set obs" by simp
  from best_Suc_choice [OF Suc.prems(2), of obs sp tp ep t] obtain m q where
    q: "q \<in> set states"
    and m: "m = fst (best obs states sp tp ep t q) * trans_of tp q s
                  * emit_of ep s (obs ! Suc t)"
    and bst: "best obs states sp tp ep (Suc t) s
               = (m, snd (best obs states sp tp ep t q) @ [s])"
    by blast
  from Suc.prems have "t < length obs" by simp
  from Suc.IH [OF this q]
  have v: "0 \<le> fst (best obs states sp tp ep t q)" "fst (best obs states sp tp ep t q) \<le> 1"
    by simp_all
  from u q Suc.prems(2) ob have ab: "0 \<le> trans_of tp q s" "trans_of tp q s \<le> 1"
    "0 \<le> emit_of ep s (obs ! Suc t)" "emit_of ep s (obs ! Suc t) \<le> 1"
    by (simp_all add: unit_tables_def)
  have "0 \<le> m" unfolding m using v ab by (intro mult_nonneg_nonneg)
  moreover have "m \<le> 1" unfolding m using v ab by (intro mult_le_one mult_nonneg_nonneg)
  ultimately show ?case unfolding bst fst_conv by simp
qed

text \<open>A state that the final \<^verbatim>\<open>max\<close> may select ends a path of maximal probability.\<close>

lemma best_maximum:
  assumes nn: "nonneg_tables obs states tp ep"
    and obs: "obs \<noteq> []" and q: "q \<in> set states"
    and ub: "\<forall>s\<in>set states. \<not> tuple_gt (fst (best obs states sp tp ep (length obs - 1) s), s)
                                         (fst (best obs states sp tp ep (length obs - 1) q), q)"
  shows "snd (best obs states sp tp ep (length obs - 1) q)
           \<in> set (List.n_lists (length obs) states) \<and>
         path_probability sp tp ep obs (snd (best obs states sp tp ep (length obs - 1) q))
           = fst (best obs states sp tp ep (length obs - 1) q) \<and>
         Max (path_probability sp tp ep obs ` set (List.n_lists (length obs) states))
           = fst (best obs states sp tp ep (length obs - 1) q)"
proof -
  let ?T = "length obs - 1"
  let ?all = "set (List.n_lists (length obs) states)"
  let ?m = "fst (best obs states sp tp ep ?T q)" and ?p = "snd (best obs states sp tp ep ?T q)"
  from obs have T: "Suc ?T = length obs" by simp
  from best_path_shape [OF q, of obs sp tp ep ?T] T
  have mem: "?p \<in> ?all" by (simp add: set_n_lists del: best.simps)
  have att: "path_probability sp tp ep obs ?p = ?m"
    using best_attains [OF q, of sp tp ep obs ?T] T
    by (simp add: path_probability_prefix del: best.simps)
  have le: "path_probability sp tp ep obs ss \<le> ?m" if ss: "ss \<in> ?all" for ss
  proof -
    from ss have len: "length ss = length obs" and sub: "set ss \<subseteq> set states"
      by (simp_all add: set_n_lists)
    have el: "ss ! i \<in> set states" if "i \<le> ?T" for i
      using that len sub T by (metis le_imp_less_Suc nth_mem subsetD)
    from obs have "?T < length obs" by simp
    from best_upper [OF nn this el, of sp] T
    have "path_probability sp tp ep obs ss \<le> fst (best obs states sp tp ep ?T (ss ! ?T))"
      by (simp add: path_probability_prefix del: best.simps)
    also have "\<dots> \<le> ?m"
      using ub el [of ?T] by (auto simp: tuple_gt_iff simp del: best.simps)
    finally show ?thesis .
  qed
  have "Max (path_probability sp tp ep obs ` ?all) = ?m"
  proof (rule Max_eqI)
    show "finite (path_probability sp tp ep obs ` ?all)" by simp
    show "y \<le> ?m" if "y \<in> path_probability sp tp ep obs ` ?all" for y
      using that le by blast
    show "?m \<in> path_probability sp tp ep obs ` ?all"
      using mem att by (metis imageI)
  qed
  with mem att show ?thesis by simp
qed

section \<open>The checks of the validator\<close>

lemma all_checks_iff:
  "(\<forall>c. P c) \<longleftrightarrow>
     P ObservationsSequence \<and> P StatesSequence \<and> P StartKeys \<and> P TransKeys \<and>
     P TransInnerKeys \<and> P EmitKeys \<and> P EmitInnerKeys"
  by (metis check.exhaust)

lemma validate_input_first_failure:
  assumes "\<not> holds c observations states sp tp ep"
    and "\<And>c'. rank c' < rank c \<Longrightarrow> holds c' observations states sp tp ep"
  shows "validate_input observations states sp tp ep = Inl (AssertionError (message c))"
proof (cases c)
  case ObservationsSequence
  with assms(1) show ?thesis by (simp add: validate_input_def py_assert_def)
next
  case StatesSequence
  with assms(1) assms(2) [of ObservationsSequence] show ?thesis
    by (simp add: validate_input_def py_assert_def)
next
  case StartKeys
  with assms(1) assms(2) [of ObservationsSequence] assms(2) [of StatesSequence]
  show ?thesis by (simp add: validate_input_def py_assert_def)
next
  case TransKeys
  with assms(1) assms(2) [of ObservationsSequence] assms(2) [of StatesSequence]
    assms(2) [of StartKeys]
  show ?thesis by (simp add: validate_input_def py_assert_def)
next
  case TransInnerKeys
  with assms(1) assms(2) [of ObservationsSequence] assms(2) [of StatesSequence]
    assms(2) [of StartKeys] assms(2) [of TransKeys]
  show ?thesis by (simp add: validate_input_def py_assert_def py_all_inner_keys)
next
  case EmitKeys
  with assms(1) assms(2) [of ObservationsSequence] assms(2) [of StatesSequence]
    assms(2) [of StartKeys] assms(2) [of TransKeys] assms(2) [of TransInnerKeys]
  show ?thesis by (simp add: validate_input_def py_assert_def py_all_inner_keys)
next
  case EmitInnerKeys
  with assms(1) assms(2) [of ObservationsSequence] assms(2) [of StatesSequence]
    assms(2) [of StartKeys] assms(2) [of TransKeys] assms(2) [of TransInnerKeys]
    assms(2) [of EmitKeys]
  show ?thesis by (simp add: validate_input_def py_assert_def py_all_inner_keys)
qed

lemma validate_input_all_hold:
  assumes "\<And>c. holds c observations states sp tp ep"
  shows "validate_input observations states sp tp ep = Inr ()"
  using assms [of ObservationsSequence] assms [of StatesSequence] assms [of StartKeys]
    assms [of TransKeys] assms [of TransInnerKeys] assms [of EmitKeys]
    assms [of EmitInnerKeys]
  by (simp add: validate_input_Inr_iff valid_tables_def)

lemma message_inj: "message c = message c' \<Longrightarrow> c = c'"
  by (cases c; cases c') simp_all

section \<open>How ties are broken\<close>

lemma generate_Inr_iff:
  "generate f xs = Inr ys \<longleftrightarrow> list_all2 (\<lambda>x y. f x = Inr y) xs ys"
proof (induction xs arbitrary: ys)
  case Nil
  show ?case by auto
next
  case (Cons x xs)
  show ?case
    by (cases ys; cases "f x"; cases "generate f xs") (auto simp: Cons.IH [symmetric])
qed

lemma generate_InrD:
  assumes "generate f xs = Inr ys"
  shows "(\<forall>y\<in>set ys. \<exists>x\<in>set xs. f x = Inr y) \<and> (\<forall>x\<in>set xs. \<exists>y\<in>set ys. f x = Inr y)"
proof -
  from assms have l: "list_all2 (\<lambda>x y. f x = Inr y) xs ys" by (simp add: generate_Inr_iff)
  then have len: "length xs = length ys" by (rule list_all2_lengthD)
  have "\<exists>x\<in>set xs. f x = Inr y" if "y \<in> set ys" for y
  proof -
    from that obtain i where i: "i < length ys" "ys ! i = y" by (auto simp: in_set_conv_nth)
    with l len have "f (xs ! i) = Inr y" by (auto dest: list_all2_nthD2)
    with i len show ?thesis by (metis nth_mem)
  qed
  moreover have "\<exists>y\<in>set ys. f x = Inr y" if "x \<in> set xs" for x
  proof -
    from that obtain i where i: "i < length xs" "xs ! i = x" by (auto simp: in_set_conv_nth)
    with l have "f x = Inr (ys ! i)" by (auto dest: list_all2_nthD)
    with i len show ?thesis by (metis nth_mem)
  qed
  ultimately show ?thesis by blast
qed

lemma candidate_label:
  "candidate V t tp ep obs c p = Inr (v, p') \<Longrightarrow> p' = p"
  by (auto simp: candidate_def and_then_Inr_iff)

lemma final_candidate_label:
  "final_candidate V s = Inr (v, s') \<Longrightarrow> s' = s"
  by (auto simp: final_candidate_def and_then_Inr_iff)

lemma max_of_generated:
  assumes sel: "and_then (generate f xs) py_max = Inr (m, q)"
    and label: "\<And>x v x'. f x = Inr (v, x') \<Longrightarrow> x' = x"
  shows "q \<in> set xs \<and> f q = Inr (m, q) \<and>
         (\<forall>p\<in>set xs. \<forall>v. f p = Inr (v, p) \<longrightarrow> v \<le> m \<and> (v = m \<longrightarrow> p \<le> q))"
proof -
  from sel obtain ys where gen: "generate f xs = Inr ys" and mx: "py_max ys = Inr (m, q)"
    by (auto simp: and_then_Inr_iff)
  from py_max_InrD [OF mx] have mem: "(m, q) \<in> set ys"
    and ub: "\<forall>y\<in>set ys. \<not> tuple_gt y (m, q)" by simp_all
  from generate_InrD [OF gen] mem obtain x where x: "x \<in> set xs" "f x = Inr (m, q)" by blast
  from label [OF x(2)] x have q: "q \<in> set xs" "f q = Inr (m, q)" by simp_all
  have "v \<le> m \<and> (v = m \<longrightarrow> p \<le> q)" if p: "p \<in> set xs" and v: "f p = Inr (v, p)" for p v
  proof -
    from generate_InrD [OF gen] p v have "(v, p) \<in> set ys" by fastforce
    with ub have "\<not> tuple_gt (v, p) (m, q)" by blast
    then show ?thesis by (auto simp: tuple_gt_iff)
  qed
  with q show ?thesis by blast
qed

lemma max_previous_greatest:
  assumes "max_previous V t states tp ep obs c = Inr (m, q)"
  shows "q \<in> set states \<and> candidate V t tp ep obs c q = Inr (m, q) \<and>
         (\<forall>p\<in>set states. \<forall>v. candidate V t tp ep obs c p = Inr (v, p)
             \<longrightarrow> v \<le> m \<and> (v = m \<longrightarrow> p \<le> q))"
  using assms unfolding max_previous_def
  by (rule max_of_generated) (rule candidate_label)

lemma max_final_greatest:
  assumes "max_final V states = Inr (m, q)"
  shows "q \<in> set states \<and> final_candidate V q = Inr (m, q) \<and>
         (\<forall>s\<in>set states. \<forall>v. final_candidate V s = Inr (v, s)
             \<longrightarrow> v \<le> m \<and> (v = m \<longrightarrow> s \<le> q))"
  using assms unfolding max_final_def
  by (rule max_of_generated) (rule final_candidate_label)

lemma tuple_gt_antisym:
  "\<not> tuple_gt (a, p) (b, q) \<Longrightarrow> \<not> tuple_gt (b, q) (a, p) \<Longrightarrow> p = q"
  by (auto simp: tuple_gt_iff)

lemma py_max_set_cong:
  assumes "set xs = set ys"
  shows "py_max xs = py_max ys"
proof (cases "xs = []")
  case True
  with assms show ?thesis by simp
next
  case False
  with assms have ys: "ys \<noteq> []" by auto
  from py_max_nonempty [OF False] obtain m where
    m: "py_max xs = Inr m" "m \<in> set xs" "\<forall>y\<in>set xs. \<not> tuple_gt y m" by blast
  from py_max_nonempty [OF ys] obtain m' where
    m': "py_max ys = Inr m'" "m' \<in> set ys" "\<forall>y\<in>set ys. \<not> tuple_gt y m'" by blast
  from m m' assms have "\<not> tuple_gt m m'" "\<not> tuple_gt m' m" by auto
  then have "m = m'" by (auto simp: tuple_gt_iff prod_eq_iff)
  with m m' show ?thesis by simp
qed

lemma best_set_cong:
  assumes "set xs = set ys"
  shows "best obs xs sp tp ep t = best obs ys sp tp ep t"
proof (induction t)
  case 0
  show ?case by simp
next
  case (Suc t)
  have "py_max (map (\<lambda>p. (fst (best obs ys sp tp ep t p) * trans_of tp p c
                               * emit_of ep c (obs ! Suc t), p)) xs)
      = py_max (map (\<lambda>p. (fst (best obs ys sp tp ep t p) * trans_of tp p c
                               * emit_of ep c (obs ! Suc t), p)) ys)" for c
    by (rule py_max_set_cong) (simp add: assms)
  then show ?case unfolding best.simps Suc.IH by simp
qed

lemma validate_input_closed_form:
  "validate_input observations states sp tp ep =
     (if \<not> is_list_or_tuple observations
        then Inl (AssertionError (message ObservationsSequence))
      else if \<not> is_list_or_tuple states
        then Inl (AssertionError (message StatesSequence))
      else if dom sp \<noteq> set (items states)
        then Inl (AssertionError (message StartKeys))
      else if dom tp \<noteq> set (items states)
        then Inl (AssertionError (message TransKeys))
      else if \<not> inner_keys tp (items states) (set (items states))
        then Inl (AssertionError (message TransInnerKeys))
      else if dom ep \<noteq> set (items states)
        then Inl (AssertionError (message EmitKeys))
      else if \<not> inner_keys ep (items states) (set (items observations))
        then Inl (AssertionError (message EmitInnerKeys))
      else Inr ())"
  by (simp add: validate_input_def py_assert_def py_all_inner_keys)

lemma validate_input_set_cong:
  assumes "is_list_or_tuple states = is_list_or_tuple states'"
    and "set (items states) = set (items states')"
  shows "validate_input observations states sp tp ep
           = validate_input observations states' sp tp ep"
  unfolding validate_input_closed_form by (simp add: assms inner_keys_def)

lemma viterbi_set_cong:
  assumes seq: "is_list_or_tuple states = is_list_or_tuple states'"
    and eq: "set (items states) = set (items states')"
  shows "viterbi observations states sp tp ep = viterbi observations states' sp tp ep"
proof -
  let ?obs = "items observations"
  let ?T = "length ?obs - 1"
  have val: "validate_input observations states sp tp ep
               = validate_input observations states' sp tp ep"
    using assms by (rule validate_input_set_cong)
  show ?thesis
  proof (cases "validate_input observations states sp tp ep")
    case (Inl e)
    with val have "validate_input observations states' sp tp ep = Inl e" by simp
    with Inl show ?thesis by (simp add: viterbi_invalid)
  next
    case (Inr u)
    then have ok: "validate_input observations states sp tp ep = Inr ()" by simp
    with val have ok': "validate_input observations states' sp tp ep = Inr ()" by simp
    show ?thesis
    proof (cases "items states = []")
      case True
      with eq have "items states' = []" by simp
      with True viterbi_no_states [OF ok] viterbi_no_states [OF ok'] show ?thesis by simp
    next
      case False
      with eq have ne': "items states' \<noteq> []" by auto
      show ?thesis
      proof (cases "?obs = []")
        case True
        with viterbi_no_observations [OF ok True False]
          viterbi_no_observations [OF ok' True ne'] show ?thesis by simp
      next
        case obs: False
        have b: "best ?obs (items states) sp tp ep ?T = best ?obs (items states') sp tp ep ?T"
          using eq by (rule best_set_cong)
        from viterbi_value [OF ok obs False] obtain q where
          q: "q \<in> set (items states)"
          and v: "viterbi observations states sp tp ep
                   = Inr (best ?obs (items states) sp tp ep ?T q)"
          and ub: "\<forall>s\<in>set (items states).
              \<not> tuple_gt (fst (best ?obs (items states) sp tp ep ?T s), s)
                          (fst (best ?obs (items states) sp tp ep ?T q), q)"
          by blast
        from viterbi_value [OF ok' obs ne'] obtain q' where
          q': "q' \<in> set (items states')"
          and v': "viterbi observations states' sp tp ep
                   = Inr (best ?obs (items states') sp tp ep ?T q')"
          and ub': "\<forall>s\<in>set (items states').
              \<not> tuple_gt (fst (best ?obs (items states') sp tp ep ?T s), s)
                          (fst (best ?obs (items states') sp tp ep ?T q'), q')"
          by blast
        from q' eq have q'in: "q' \<in> set (items states)" by simp
        from q eq have qin': "q \<in> set (items states')" by simp
        from ub q'in
        have "\<not> tuple_gt (fst (best ?obs (items states) sp tp ep ?T q'), q')
                          (fst (best ?obs (items states) sp tp ep ?T q), q)" by (rule bspec)
        moreover from ub' qin'
        have "\<not> tuple_gt (fst (best ?obs (items states') sp tp ep ?T q), q)
                          (fst (best ?obs (items states') sp tp ep ?T q'), q')" by (rule bspec)
        ultimately have "q = q'" unfolding b by (rule tuple_gt_antisym [symmetric])
        with v v' b show ?thesis by simp
      qed
    qed
  qed
qed

lemma first_of_descending:
  assumes desc: "sorted (rev xs)" and q: "q \<in> set xs"
    and ub: "\<forall>p\<in>set xs. \<forall>v. f p = Inr (v, p) \<longrightarrow> v \<le> m \<and> (v = m \<longrightarrow> p \<le> q)"
  shows "\<exists>i<length xs. xs ! i = q \<and>
           (\<forall>j<i. \<forall>v. f (xs ! j) = Inr (v, xs ! j) \<longrightarrow> v < (m::real))"
proof -
  from split_list_first [OF q] obtain ys zs where
    xs: "xs = ys @ q # zs" and first: "q \<notin> set ys" by blast
  let ?i = "length ys"
  from xs have i: "?i < length xs" "xs ! ?i = q" by simp_all
  have "v < m" if j: "j < ?i" and v: "f (xs ! j) = Inr (v, xs ! j)" for j v
  proof -
    from j xs have mem: "xs ! j \<in> set ys" by (simp add: nth_append)
    with first have ne: "xs ! j \<noteq> q" by auto
    from j i have "xs ! j \<in> set xs" by simp
    with ub v have le: "v \<le> m" and tie: "v = m \<longrightarrow> xs ! j \<le> q" by blast+
    from sorted_rev_nth_mono [OF desc, of j ?i] j i have "q \<le> xs ! j" by simp
    with ne tie have "v \<noteq> m" by auto
    with le show ?thesis by simp
  qed
  with i show ?thesis by blast
qed

section \<open>The store model: what a call changes\<close>

lemma unchanged_length:
  assumes "unchanged h0 h"
  shows "length h0 \<le> length h"
proof -
  from assms have "length (take (length h0) h) = length h0"
    unfolding unchanged_def by simp
  then show ?thesis by simp
qed

lemma keeps_then:
  assumes "keeps I m R" and "\<And>x. R x \<Longrightarrow> keeps I (f x) Q"
  shows "keeps I (then_st m f) Q"
  unfolding keeps_def
proof (intro allI impI)
  fix h assume I: "I h"
  obtain r h' where m: "m h = (r, h')" by (cases "m h")
  from assms(1) I m have I': "I h'" and R: "\<And>x. r = Inr x \<Longrightarrow> R x"
    by (auto simp: keeps_def)
  show "I (snd (then_st m f h)) \<and> (\<forall>x. fst (then_st m f h) = Inr x \<longrightarrow> Q x)"
  proof (cases r)
    case (Inl e)
    with m I' show ?thesis by (simp add: then_st_def)
  next
    case (Inr x)
    from assms(2) [OF R [OF Inr]] I' have "I (snd (f x h')) \<and> (\<forall>y. fst (f x h') = Inr y \<longrightarrow> Q y)"
      by (simp add: keeps_def)
    with m Inr show ?thesis by (simp add: then_st_def)
  qed
qed

lemma keeps_result: "keeps I (result_of r) (\<lambda>x. r = Inr x)"
  by (simp add: keeps_def result_of_def)

lemma keeps_weaken: "keeps I m R \<Longrightarrow> (\<And>x. R x \<Longrightarrow> Q x) \<Longrightarrow> keeps I m Q"
  by (simp add: keeps_def)

lemma keeps_true: "keeps I m R \<Longrightarrow> keeps I m (\<lambda>_. True)"
  by (simp add: keeps_def)

lemma keeps_fetch: "keeps I (fetch kind a) (\<lambda>_. True)"
  by (simp add: keeps_def fetch_def then_st_def deref_def result_of_def)

lemma keeps_deref: "keeps I (deref a) (\<lambda>_. True)"
  by (simp add: keeps_def deref_def)

lemma layers_of_Inr: "layers_of ob = Inr ls \<Longrightarrow> ob = Layers ls"
  by (cases ob) simp_all

lemma keeps_layers:
  "keeps (local_inv h0 V) (fetch layers_of V) (\<lambda>ls. \<forall>l\<in>set ls. length h0 \<le> l)"
  by (auto simp: keeps_def fetch_def then_st_def deref_def result_of_def local_inv_def
      dest!: layers_of_Inr)

lemma keeps_alloc: "keeps (local_inv h0 V) (alloc ob) (\<lambda>a. length h0 \<le> a)"
  by (auto simp: keeps_def alloc_def local_inv_def unchanged_def nth_append
      dest: unchanged_length [unfolded unchanged_def])

lemma nth_update_cases:
  "V < length h \<Longrightarrow> h[l := ob] ! V = (if l = V then ob else h ! V)"
  by simp

lemma keeps_assign_numbers:
  "length h0 \<le> l \<Longrightarrow> keeps (local_inv h0 V) (assign l (Numbers d)) (\<lambda>_. True)"
  by (auto simp: keeps_def assign_def local_inv_def unchanged_def nth_update_cases
      split: if_splits)

lemma keeps_assign_path_table:
  "length h0 \<le> p \<Longrightarrow> keeps (local_inv h0 V) (assign p (PathTable d)) (\<lambda>_. True)"
  by (auto simp: keeps_def assign_def local_inv_def unchanged_def nth_update_cases
      split: if_splits)

lemma keeps_assign_layers:
  "\<forall>l\<in>set ls. length h0 \<le> l \<Longrightarrow> keeps (local_inv h0 V) (assign V (Layers ls)) (\<lambda>_. True)"
  by (auto simp: keeps_def assign_def local_inv_def unchanged_def nth_update_cases
      split: if_splits)

lemma item_mem: "item xs i = Inr x \<Longrightarrow> x \<in> set xs"
  by (auto simp: item_def split: if_splits)

lemma last_item_mem: "last_item xs = Inr x \<Longrightarrow> x \<in> set xs"
  by (auto simp: last_item_def split: if_splits)

lemma keeps_for_each:
  assumes "\<And>x v. P v \<Longrightarrow> keeps I (body x v) P"
  shows "P v \<Longrightarrow> keeps I (for_each_st xs body v) P"
proof (induction xs arbitrary: v)
  case Nil
  then show ?case by (simp add: keeps_def result_of_def)
next
  case (Cons x xs)
  show ?case
    unfolding for_each_st.simps
    by (rule keeps_then [OF assms [OF Cons.prems]]) (rule Cons.IH)
qed

lemma keeps_generate:
  assumes "\<And>x. keeps I (f x) (\<lambda>_. True)"
  shows "keeps I (generate_st f xs) (\<lambda>_. True)"
proof (induction xs)
  case Nil
  show ?case by (simp add: keeps_def result_of_def)
next
  case (Cons x xs)
  show ?case
    unfolding generate_st.simps
    by (rule keeps_then [OF assms] keeps_then [OF Cons] keeps_true [OF keeps_result])+
qed

lemma keeps_all:
  assumes "\<And>x. keeps I (f x) (\<lambda>_. True)"
  shows "keeps I (all_st f xs) (\<lambda>_. True)"
proof (induction xs)
  case Nil
  show ?case by (simp add: keeps_def result_of_def)
next
  case (Cons x xs)
  have "keeps I (if b then all_st f xs else result_of (Inr False)) (\<lambda>_. True)" for b
    using Cons by (simp add: keeps_def result_of_def)
  then show ?case
    unfolding all_st.simps by (rule keeps_then [OF assms])
qed

lemma st_init_step_keeps:
  assumes "length h0 \<le> path"
  shows "keeps (local_inv h0 V) (st_init_step obs sp ep V path s u) (\<lambda>_. True)"
  unfolding st_init_step_def
  apply (rule keeps_then, (rule keeps_layers | rule keeps_fetch | rule keeps_result))+
  apply (rule keeps_then)
   apply (rule keeps_assign_numbers)
   apply (blast dest: item_mem)
  apply (rule keeps_then, rule keeps_fetch)
  apply (rule keeps_assign_path_table [OF assms])
  done


lemma keeps_prod:
  "(\<And>a b. keeps I (f a b) Q) \<Longrightarrow> keeps I (case_prod f x) Q"
  by (cases x) simp

lemma st_candidate_keeps:
  "keeps I (st_candidate V t tp ep obs c p) (\<lambda>_. True)"
  unfolding st_candidate_def
  by (rule keeps_then keeps_fetch keeps_true [OF keeps_result])+

lemma st_final_candidate_keeps:
  "keeps I (st_final_candidate V s) (\<lambda>_. True)"
  unfolding st_final_candidate_def
  by (rule keeps_then keeps_fetch keeps_true [OF keeps_result])+

lemma st_state_step_keeps:
  assumes "length h0 \<le> new_path"
  shows "keeps (local_inv h0 V)
           (st_state_step t states tp ep obs V path new_path c u) (\<lambda>_. True)"
  unfolding st_state_step_def
  apply (rule keeps_then, rule keeps_fetch)
  apply (rule keeps_then, rule keeps_generate, rule st_candidate_keeps)
  apply (rule keeps_then, rule keeps_result)
  apply (rule keeps_prod)
  apply (rule keeps_then, rule keeps_layers)
  apply (rule keeps_then, rule keeps_result)
  apply (rule keeps_then, rule keeps_fetch)
  apply (rule keeps_then)
   apply (rule keeps_assign_numbers)
   apply (blast dest: item_mem)
  apply (rule keeps_then, rule keeps_fetch)
  apply (rule keeps_then, rule keeps_result)
  apply (rule keeps_then, rule keeps_fetch)
  apply (rule keeps_assign_path_table [OF assms])
  done

lemma st_time_step_keeps:
  "keeps (local_inv h0 V) (st_time_step states tp ep obs V t path) (\<lambda>p. length h0 \<le> p)"
  unfolding st_time_step_def
  apply (rule keeps_then, rule keeps_alloc)
  apply (rule keeps_then, rule keeps_layers)
  apply (rule keeps_then)
   apply (rule keeps_assign_layers)
   apply simp
  apply (rule keeps_then, rule keeps_alloc)
  apply (rule keeps_then, rule keeps_fetch)
  apply (rule keeps_then)
   apply (rule keeps_for_each [where P = "\<lambda>_. True"])
    apply (rule st_state_step_keeps)
    apply assumption
   apply (rule TrueI)
  apply (rule keeps_weaken [OF keeps_result])
  apply simp
  done

lemma st_decode_keeps:
  assumes "length h0 \<le> path"
  shows "keeps (local_inv h0 V) (st_decode obs states sp tp ep V path) (\<lambda>_. True)"
  unfolding st_decode_def
  apply (rule keeps_then, rule keeps_fetch)
  apply (rule keeps_then)
   apply (rule keeps_for_each [where P = "\<lambda>_. True"])
    apply (rule st_init_step_keeps [OF assms])
   apply (rule TrueI)
  apply (rule keeps_then, rule keeps_fetch)
  apply (rule keeps_then)
   apply (rule keeps_for_each [where P = "\<lambda>p. length h0 \<le> p"])
    apply (rule st_time_step_keeps)
   apply (rule assms)
  apply (rule keeps_then, rule keeps_fetch)
  apply (rule keeps_then, rule keeps_generate, rule st_final_candidate_keeps)
  apply (rule keeps_then, rule keeps_result)
  apply (rule keeps_prod)
  apply (rule keeps_then, rule keeps_fetch)
  apply (rule keeps_then, rule keeps_result)
  apply (rule keeps_weaken [OF keeps_result])
  apply (rule TrueI)
  done

lemma st_row_keys_match_keeps:
  "keeps I (st_row_keys_match tp states s) (\<lambda>_. True)"
  unfolding st_row_keys_match_def
  by (rule keeps_then keeps_fetch keeps_true [OF keeps_result])+

lemma st_row_symbols_match_keeps:
  "keeps I (st_row_symbols_match ep obs s) (\<lambda>_. True)"
  unfolding st_row_symbols_match_def
  by (rule keeps_then keeps_fetch keeps_true [OF keeps_result])+

lemma st_validate_input_keeps:
  "keeps I (st_validate_input obs states sp tp ep) (\<lambda>_. True)"
  unfolding st_validate_input_def
  by (rule keeps_then keeps_fetch keeps_deref keeps_all st_row_keys_match_keeps
      st_row_symbols_match_keeps keeps_true [OF keeps_result])+

lemma st_viterbi_unchanged:
  "unchanged h (snd (st_viterbi obs states sp tp ep h))"
proof -
  obtain r h1 where v: "st_validate_input obs states sp tp ep h = (r, h1)"
    by (cases "st_validate_input obs states sp tp ep h")
  have "unchanged h h" by (simp add: unchanged_def)
  with st_validate_input_keeps [of "unchanged h" obs states sp tp ep] v
  have h1: "unchanged h h1" by (auto simp: keeps_def)
  show ?thesis
  proof (cases r)
    case (Inl e)
    with v h1 show ?thesis by (simp add: st_viterbi_def then_st_def)
  next
    case (Inr u)
    let ?h2 = "h1 @ [Numbers Map.empty, Layers [length h1], PathTable Map.empty]"
    let ?V = "Suc (length h1)" and ?path = "Suc (Suc (length h1))"
    from h1 have len: "length h \<le> length h1" by (rule unchanged_length)
    have inv: "local_inv h ?V ?h2"
      using h1 len by (simp add: local_inv_def unchanged_def nth_append)
    from len have p: "length h \<le> ?path" by simp
    from st_decode_keeps [OF p, of ?V obs states sp tp ep] inv
    have "local_inv h ?V (snd (st_decode obs states sp tp ep ?V ?path ?h2))"
      by (simp add: keeps_def)
    then have "unchanged h (snd (st_decode obs states sp tp ep ?V ?path ?h2))"
      by (simp add: local_inv_def)
    with v Inr show ?thesis
      by (simp add: st_viterbi_def then_st_def alloc_def)
  qed
qed

section \<open>The store model returns what the first model returns\<close>

lemma fetch_at: "a < length h \<Longrightarrow> fetch kind a h = (kind (h ! a), h)"
  by (simp add: fetch_def then_st_def deref_def result_of_def split: sum.splits)

lemma deref_at: "a < length h \<Longrightarrow> deref a h = (Inr (h ! a), h)"
  by (simp add: deref_def)

lemma then_st_Inr: "m h = (Inr x, h') \<Longrightarrow> then_st m f h = f x h'"
  by (simp add: then_st_def)

lemma then_st_Inl: "m h = (Inl e, h') \<Longrightarrow> then_st m f h = (Inl e, h')"
  by (simp add: then_st_def)

lemma then_st_result:
  "then_st (result_of r) f h = (case r of Inl e \<Rightarrow> (Inl e, h) | Inr x \<Rightarrow> f x h)"
  by (simp add: then_st_def result_of_def split: sum.splits)

lemma then_st_read:
  "m h = (r, h) \<Longrightarrow> then_st m f h = (case r of Inl e \<Rightarrow> (Inl e, h) | Inr x \<Rightarrow> f x h)"
  by (simp add: then_st_def split: sum.splits)

lemma result_of_apply: "result_of r h = (r, h)"
  by (simp add: result_of_def)

lemma then_st_fetch:
  "a < length h \<Longrightarrow>
     then_st (fetch kind a) f h = (case kind (h ! a) of Inl e \<Rightarrow> (Inl e, h) | Inr x \<Rightarrow> f x h)"
  by (simp add: then_st_read [OF fetch_at])

lemma then_st_deref: "a < length h \<Longrightarrow> then_st (deref a) f h = f (h ! a) h"
  by (simp add: then_st_def deref_def)

lemma all_st_read:
  "(\<And>x. x \<in> set xs \<Longrightarrow> f x h = (g x, h)) \<Longrightarrow> all_st f xs h = (py_all g xs, h)"
  by (induction xs) (simp_all add: result_of_def then_st_read split: sum.splits)

lemma generate_st_read:
  "(\<And>x. x \<in> set xs \<Longrightarrow> f x h = (g x, h)) \<Longrightarrow> generate_st f xs h = (generate g xs, h)"
  by (induction xs) (simp_all add: result_of_def then_st_read then_st_result split: sum.splits)

lemma represents_rows:
  assumes "represents h oa sa pa ta ea obs sts sp tp ep"
  obtains trows erows where
    "h ! ta = Rows trows" "dom trows = dom tp"
    "\<And>s. tp s = None \<Longrightarrow> trows s = None"
    "\<And>s d. tp s = Some d \<Longrightarrow> \<exists>a. trows s = Some a \<and> a < length h \<and> h ! a = Numbers d"
    "h ! ea = Rows erows" "dom erows = dom ep"
    "\<And>s. ep s = None \<Longrightarrow> erows s = None"
    "\<And>s d. ep s = Some d \<Longrightarrow> \<exists>a. erows s = Some a \<and> a < length h \<and> h ! a = Emissions d"
proof -
  from assms obtain trows erows where
    t: "h ! ta = Rows trows"
      "\<forall>s. case trows s of None \<Rightarrow> tp s = None
              | Some a \<Rightarrow> a < length h \<and> (\<exists>d. h ! a = Numbers d \<and> tp s = Some d)"
    and e: "h ! ea = Rows erows"
      "\<forall>s. case erows s of None \<Rightarrow> ep s = None
              | Some a \<Rightarrow> a < length h \<and> (\<exists>d. h ! a = Emissions d \<and> ep s = Some d)"
    unfolding represents_def by blast
  have t1: "tp s = None \<Longrightarrow> trows s = None" for s
    using t(2) [rule_format, of s] by (cases "trows s") auto
  have t2: "tp s = Some d \<Longrightarrow> \<exists>a. trows s = Some a \<and> a < length h \<and> h ! a = Numbers d" for s d
    using t(2) [rule_format, of s] by (cases "trows s") auto
  have e1: "ep s = None \<Longrightarrow> erows s = None" for s
    using e(2) [rule_format, of s] by (cases "erows s") auto
  have e2: "ep s = Some d \<Longrightarrow> \<exists>a. erows s = Some a \<and> a < length h \<and> h ! a = Emissions d" for s d
    using e(2) [rule_format, of s] by (cases "erows s") auto
  have "trows s = None \<longleftrightarrow> tp s = None" for s
    using t(2) [rule_format, of s] by (cases "trows s") auto
  then have dt: "dom trows = dom tp" by (simp add: dom_def)
  have "erows s = None \<longleftrightarrow> ep s = None" for s
    using e(2) [rule_format, of s] by (cases "erows s") auto
  then have de: "dom erows = dom ep" by (simp add: dom_def)
  show ?thesis
    by (rule that [OF t(1) dt t1 t2 e(1) de e1 e2])
qed

lemma st_validate_input_refines:
  assumes rep: "represents h oa sa pa ta ea obs sts sp tp ep"
  shows "st_validate_input oa sa pa ta ea h
           = (validate_input (PyList obs) (PyList sts) sp tp ep, h)"
proof -
  from rep have a: "oa < length h" "h ! oa = Symbols obs" "sa < length h" "h ! sa = Labels sts"
    "pa < length h" "h ! pa = Numbers sp" "ta < length h" "ea < length h"
    by (simp_all add: represents_def)
  from rep obtain trows erows where
    t: "h ! ta = Rows trows" "dom trows = dom tp"
      "\<And>s. tp s = None \<Longrightarrow> trows s = None"
      "\<And>s d. tp s = Some d \<Longrightarrow> \<exists>a. trows s = Some a \<and> a < length h \<and> h ! a = Numbers d"
    and e: "h ! ea = Rows erows" "dom erows = dom ep"
      "\<And>s. ep s = None \<Longrightarrow> erows s = None"
      "\<And>s d. ep s = Some d \<Longrightarrow> \<exists>a. erows s = Some a \<and> a < length h \<and> h ! a = Emissions d"
    by (rule represents_rows) blast
  have tm: "st_row_keys_match ta sa s h
      = (and_then (subscript tp s) (\<lambda>row. Inr (dom row = set sts)), h)" for s
  proof (cases "tp s")
    case None
    with t(3) [OF None] show ?thesis
      by (simp add: st_row_keys_match_def then_st_fetch a t(1) then_st_result subscript_def)
  next
    case (Some d)
    from t(4) [OF Some] obtain r where "trows s = Some r" "r < length h" "h ! r = Numbers d"
      by blast
    with Some show ?thesis
      by (simp add: st_row_keys_match_def then_st_fetch a t(1) then_st_result subscript_def
          result_of_apply)
  qed
  have em: "st_row_symbols_match ea oa s h
      = (and_then (subscript ep s) (\<lambda>row. Inr (dom row = set obs)), h)" for s
  proof (cases "ep s")
    case None
    with e(3) [OF None] show ?thesis
      by (simp add: st_row_symbols_match_def then_st_fetch a e(1) then_st_result subscript_def)
  next
    case (Some d)
    from e(4) [OF Some] obtain r where "erows s = Some r" "r < length h" "h ! r = Emissions d"
      by blast
    with Some show ?thesis
      by (simp add: st_row_symbols_match_def then_st_fetch a e(1) then_st_result subscript_def
          result_of_apply)
  qed
  have allt: "all_st (st_row_keys_match ta sa) xs h
      = (py_all (\<lambda>s. and_then (subscript tp s) (\<lambda>row. Inr (dom row = set sts))) xs, h)"
    for xs by (rule all_st_read) (rule tm)
  have alle: "all_st (st_row_symbols_match ea oa) xs h
      = (py_all (\<lambda>s. and_then (subscript ep s) (\<lambda>row. Inr (dom row = set obs))) xs, h)"
    for xs by (rule all_st_read) (rule em)
  have thent: "then_st (all_st (st_row_keys_match ta sa) xs) f h
      = (case py_all (\<lambda>s. and_then (subscript tp s) (\<lambda>row. Inr (dom row = set sts))) xs of
           Inl e \<Rightarrow> (Inl e, h) | Inr x \<Rightarrow> f x h)"
    for xs and f :: "bool \<Rightarrow> ('a, 'b, unit) action"
    by (simp add: then_st_def allt split: sum.splits)
  have thene: "then_st (all_st (st_row_symbols_match ea oa) xs) f h
      = (case py_all (\<lambda>s. and_then (subscript ep s) (\<lambda>row. Inr (dom row = set obs))) xs of
           Inl e \<Rightarrow> (Inl e, h) | Inr x \<Rightarrow> f x h)"
    for xs and f :: "bool \<Rightarrow> ('a, 'b, unit) action"
    by (simp add: then_st_def alle split: sum.splits)
  show ?thesis
    unfolding st_validate_input_def validate_input_def
    by (simp add: then_st_deref then_st_fetch then_st_result
        thent thene
        a t(1,2) e(1,2) py_assert_def result_of_apply
        split: sum.splits)
qed

lemma read_trans_row:
  assumes rep: "represents h oa sa pa ta ea obs sts sp tp ep"
  shows "then_st (fetch rows_of ta) (\<lambda>table.
           then_st (result_of (subscript table s)) (\<lambda>row.
           then_st (fetch numbers_of row) f)) h
         = (case subscript tp s of Inl e \<Rightarrow> (Inl e, h) | Inr trow \<Rightarrow> f trow h)"
proof -
  from rep have a: "ta < length h" by (simp add: represents_def)
  from rep obtain trows erows where
    t: "h ! ta = Rows trows"
      "\<And>s. tp s = None \<Longrightarrow> trows s = None"
      "\<And>s d. tp s = Some d \<Longrightarrow> \<exists>a. trows s = Some a \<and> a < length h \<and> h ! a = Numbers d"
    by (rule represents_rows) blast
  show ?thesis
  proof (cases "tp s")
    case None
    with t(2) [OF None] show ?thesis
      by (simp add: then_st_fetch a t(1) then_st_result subscript_def)
  next
    case (Some d)
    from t(3) [OF Some] obtain r where "trows s = Some r" "r < length h" "h ! r = Numbers d"
      by blast
    with Some show ?thesis
      by (simp add: then_st_fetch a t(1) then_st_result subscript_def)
  qed
qed

lemma read_emit_row:
  assumes rep: "represents h oa sa pa ta ea obs sts sp tp ep"
  shows "then_st (fetch rows_of ea) (\<lambda>table.
           then_st (result_of (subscript table s)) (\<lambda>row.
           then_st (fetch symbols_of oa) (\<lambda>os.
           then_st (result_of (item os t)) (\<lambda>ob.
           then_st (fetch emissions_of row) (f ob))))) h
         = (case subscript ep s of Inl e \<Rightarrow> (Inl e, h)
            | Inr erow \<Rightarrow> (case item obs t of Inl e \<Rightarrow> (Inl e, h) | Inr ob \<Rightarrow> f ob erow h))"
proof -
  from rep have a: "ea < length h" "oa < length h" "h ! oa = Symbols obs"
    by (simp_all add: represents_def)
  from rep obtain trows erows where
    e: "h ! ea = Rows erows"
      "\<And>s. ep s = None \<Longrightarrow> erows s = None"
      "\<And>s d. ep s = Some d \<Longrightarrow> \<exists>a. erows s = Some a \<and> a < length h \<and> h ! a = Emissions d"
    by (rule represents_rows) blast
  show ?thesis
  proof (cases "ep s")
    case None
    with e(2) [OF None] show ?thesis
      by (simp add: then_st_fetch a e(1) then_st_result subscript_def)
  next
    case (Some d)
    from e(3) [OF Some] obtain r where "erows s = Some r" "r < length h" "h ! r = Emissions d"
      by blast
    with Some show ?thesis
      by (simp add: then_st_fetch a e(1) then_st_result subscript_def split: sum.splits)
  qed
qed

lemma read_layer:
  assumes tr: "trellis_at h V ls Vs"
  shows "then_st (fetch layers_of V) (\<lambda>ls'.
           then_st (result_of (item ls' i)) (\<lambda>l.
           then_st (fetch numbers_of l) (f l))) h
         = (case item Vs i of Inl e \<Rightarrow> (Inl e, h) | Inr layer \<Rightarrow> f (ls ! i) layer h)"
  using tr
  by (simp add: trellis_at_def then_st_fetch then_st_result item_def)

lemma read_last_layer:
  assumes tr: "trellis_at h V ls Vs"
  shows "then_st (fetch layers_of V) (\<lambda>ls'.
           then_st (result_of (last_item ls')) (\<lambda>l.
           then_st (fetch numbers_of l) f)) h
         = (case last_item Vs of Inl e \<Rightarrow> (Inl e, h) | Inr layer \<Rightarrow> f layer h)"
proof (cases "Vs = []")
  case True
  with tr show ?thesis
    by (simp add: trellis_at_def then_st_fetch then_st_result last_item_def)
next
  case False
  with tr have ls: "ls \<noteq> []" by (auto simp: trellis_at_def)
  from False have i: "length Vs - 1 < length Vs" by simp
  from tr i have "last ls < length h" "h ! last ls = Numbers (last Vs)"
    using ls False by (simp_all add: trellis_at_def last_conv_nth)
  with tr ls False show ?thesis
    by (simp add: trellis_at_def then_st_fetch then_st_result last_item_def)
qed

lemma st_candidate_refines:
  assumes rep: "represents h oa sa pa ta ea obs sts sp tp ep"
    and tr: "trellis_at h V ls Vs"
  shows "st_candidate V t ta ea oa c p h = (candidate Vs t tp ep obs c p, h)"
  unfolding st_candidate_def candidate_def
  by (simp add: read_layer [OF tr] read_trans_row [OF rep] read_emit_row [OF rep]
      then_st_result result_of_apply and_then_def split: sum.splits)

lemma st_final_candidate_refines:
  assumes tr: "trellis_at h V ls Vs"
  shows "st_final_candidate V s h = (final_candidate Vs s, h)"
  unfolding st_final_candidate_def final_candidate_def
  by (simp add: read_last_layer [OF tr] then_st_result result_of_apply and_then_def
      split: sum.splits)

lemma item_Inr_iff: "item xs i = Inr x \<longleftrightarrow> i < length xs \<and> x = xs ! i"
  by (auto simp: item_def)

lemma item_Inl_iff: "item xs i = Inl e \<longleftrightarrow> \<not> i < length xs \<and> e = IndexError"
  by (auto simp: item_def)

lemma then_st_assign: "then_st (assign a ob) f h = f () (h[a := ob])"
  by (simp add: then_st_def assign_def)

lemma assign_apply: "assign a ob h = (Inr (), h[a := ob])"
  by (simp add: assign_def)

lemma then_st_alloc: "then_st (alloc ob) f h = f (length h) (h @ [ob])"
  by (simp add: then_st_def alloc_def)

lemma read_paths:
  "paths_at h p path \<Longrightarrow> then_st (fetch path_table_of p) f h = f path h"
  by (simp add: paths_at_def then_st_fetch)

lemma trellis_at_layer:
  assumes "trellis_at h V ls Vs" "i < length Vs"
  shows "ls ! i < length h" "h ! (ls ! i) = Numbers (Vs ! i)" "ls ! i \<noteq> V"
  using assms by (auto simp: trellis_at_def)

lemma trellis_at_update_layer:
  assumes tr: "trellis_at h V ls Vs" and i: "i < length Vs"
  shows "trellis_at (h[ls ! i := Numbers d]) V ls (Vs[i := d])"
proof -
  from tr have V: "V < length h" "h ! V = Layers ls" and len: "length ls = length Vs"
    and dist: "distinct ls" by (simp_all add: trellis_at_def)
  from trellis_at_layer [OF tr i] have l: "ls ! i < length h" "ls ! i \<noteq> V" by simp_all
  have "(h[ls ! i := Numbers d]) ! (ls ! j) = Numbers (Vs[i := d] ! j)
        \<and> ls ! j < length h" if j: "j < length Vs" for j
  proof (cases "j = i")
    case True
    with l i show ?thesis by simp
  next
    case False
    with dist len i j have "ls ! j \<noteq> ls ! i" by (simp add: nth_eq_iff_index_eq)
    with trellis_at_layer [OF tr j] False show ?thesis by simp
  qed
  with V len dist l show ?thesis by (simp add: trellis_at_def)
qed

lemma trellis_at_update_paths:
  assumes tr: "trellis_at h V ls Vs" and pt: "paths_at h p path"
  shows "trellis_at (h[p := PathTable d]) V ls Vs"
proof -
  from tr pt have "p \<noteq> V" by (auto simp: trellis_at_def paths_at_def)
  moreover have "p \<noteq> ls ! j" if "j < length Vs" for j
    using trellis_at_layer [OF tr that] pt by (auto simp: paths_at_def)
  ultimately show ?thesis using tr by (simp add: trellis_at_def)
qed

lemma paths_at_update_layer:
  assumes pt: "paths_at h p path" and tr: "trellis_at h V ls Vs" and i: "i < length Vs"
  shows "paths_at (h[ls ! i := Numbers d]) p path"
proof -
  from trellis_at_layer [OF tr i] pt have "ls ! i \<noteq> p" by (auto simp: paths_at_def)
  with pt show ?thesis by (simp add: paths_at_def)
qed

lemma paths_at_update_self:
  "paths_at h p path \<Longrightarrow> paths_at (h[p := PathTable d]) p d"
  by (simp add: paths_at_def)

lemma paths_at_update_other:
  "paths_at h p path \<Longrightarrow> p \<noteq> q \<Longrightarrow> paths_at (h[q := PathTable d]) p path"
  by (simp add: paths_at_def)

lemma st_init_step_refines:
  assumes rep: "represents h oa sa pa ta ea obs sts sp tp ep"
    and tr: "trellis_at h V ls Vs" and pt: "paths_at h p path"
  shows "case init_step obs sp ep s (Vs, path) of
           Inl e \<Rightarrow> fst (st_init_step oa pa ea V p s u h) = Inl e
         | Inr (Vs', path') \<Rightarrow>
             fst (st_init_step oa pa ea V p s u h) = Inr () \<and>
             trellis_at (snd (st_init_step oa pa ea V p s u h)) V ls Vs' \<and>
             paths_at (snd (st_init_step oa pa ea V p s u h)) p path'"
proof -
  from rep have a: "pa < length h" "h ! pa = Numbers sp" by (simp_all add: represents_def)
  have w: "trellis_at (h[ls ! i := Numbers d, p := PathTable d']) V ls (Vs[i := d])"
      "paths_at (h[ls ! i := Numbers d, p := PathTable d']) p d'"
      "paths_at (h[ls ! i := Numbers d]) p path"
    if i: "i < length Vs" for d d' i
    using trellis_at_update_paths [OF trellis_at_update_layer [OF tr i]
        paths_at_update_layer [OF pt tr i]]
      paths_at_update_self [OF paths_at_update_layer [OF pt tr i]]
      paths_at_update_layer [OF pt tr i]
    by simp_all
  show ?thesis
    unfolding st_init_step_def init_step_def
    by (simp add: then_st_fetch a then_st_result read_emit_row [OF rep] read_layer [OF tr]
        then_st_assign assign_apply read_paths [where path = path] w item_Inr_iff item_Inl_iff
        and_then_def split: sum.splits)
qed

lemma st_state_step_refines:
  assumes rep: "represents h oa sa pa ta ea obs sts sp tp ep"
    and tr: "trellis_at h V ls Vs" and pt: "paths_at h p path"
    and npt: "paths_at h np new_path" and ne: "p \<noteq> np"
  shows "case state_step t sts tp ep obs path c (Vs, new_path) of
           Inl e \<Rightarrow> fst (st_state_step t sa ta ea oa V p np c u h) = Inl e
         | Inr (Vs', new_path') \<Rightarrow>
             fst (st_state_step t sa ta ea oa V p np c u h) = Inr () \<and>
             trellis_at (snd (st_state_step t sa ta ea oa V p np c u h)) V ls Vs' \<and>
             paths_at (snd (st_state_step t sa ta ea oa V p np c u h)) p path \<and>
             paths_at (snd (st_state_step t sa ta ea oa V p np c u h)) np new_path'"
proof -
  from rep have a: "sa < length h" "h ! sa = Labels sts" by (simp_all add: represents_def)
  have gen: "generate_st (st_candidate V t ta ea oa c) xs h
               = (generate (candidate Vs t tp ep obs c) xs, h)" for xs
    by (rule generate_st_read) (rule st_candidate_refines [OF rep tr])
  have then_gen: "then_st (generate_st (st_candidate V t ta ea oa c) xs) f h
      = (case generate (candidate Vs t tp ep obs c) xs of
           Inl e \<Rightarrow> (Inl e, h) | Inr x \<Rightarrow> f x h)"
    for xs and f :: "(real \<times> 'a) list \<Rightarrow> ('a, 'b, unit) action"
    by (simp add: then_st_def gen split: sum.splits)
  have w: "trellis_at (h[ls ! i := Numbers d, np := PathTable d']) V ls (Vs[i := d])"
      "paths_at (h[ls ! i := Numbers d, np := PathTable d']) np d'"
      "paths_at (h[ls ! i := Numbers d, np := PathTable d']) p path"
      "paths_at (h[ls ! i := Numbers d]) p path"
      "paths_at (h[ls ! i := Numbers d]) np new_path"
    if i: "i < length Vs" for d d' i
    using trellis_at_update_paths [OF trellis_at_update_layer [OF tr i]
        paths_at_update_layer [OF npt tr i]]
      paths_at_update_self [OF paths_at_update_layer [OF npt tr i]]
      paths_at_update_other [OF paths_at_update_layer [OF pt tr i] ne]
      paths_at_update_layer [OF pt tr i] paths_at_update_layer [OF npt tr i]
    by simp_all
  show ?thesis
    unfolding st_state_step_def state_step_def max_previous_def
    by (simp add: then_st_fetch a then_gen then_st_result read_layer [OF tr]
        then_st_assign assign_apply read_paths [where path = path and p = p]
        read_paths [where path = new_path and p = np] w item_Inr_iff item_Inl_iff
        and_then_def split: sum.splits prod.splits)
qed

lemma represents_unchanged:
  assumes rep: "represents h0 oa sa pa ta ea obs sts sp tp ep" and un: "unchanged h0 h"
  shows "represents h oa sa pa ta ea obs sts sp tp ep"
proof -
  from un have len: "length h0 \<le> length h" by (rule unchanged_length)
  have same: "h ! a = h0 ! a" if "a < length h0" for a
  proof -
    from that have "take (length h0) h ! a = h ! a" by simp
    with un show ?thesis by (simp add: unchanged_def)
  qed
  have lt: "a < length h" if "a < length h0" for a using that len by simp
  from rep obtain trows erows where
    b: "oa < length h0" "h0 ! oa = Symbols obs" "sa < length h0" "h0 ! sa = Labels sts"
      "pa < length h0" "h0 ! pa = Numbers sp" "ta < length h0" "ea < length h0"
    and t: "h0 ! ta = Rows trows"
      "\<forall>s. case trows s of None \<Rightarrow> tp s = None
          | Some a \<Rightarrow> a < length h0 \<and> (\<exists>d. h0 ! a = Numbers d \<and> tp s = Some d)"
    and e: "h0 ! ea = Rows erows"
      "\<forall>s. case erows s of None \<Rightarrow> ep s = None
          | Some a \<Rightarrow> a < length h0 \<and> (\<exists>d. h0 ! a = Emissions d \<and> ep s = Some d)"
    unfolding represents_def by blast
  have t': "case trows s of None \<Rightarrow> tp s = None
          | Some a \<Rightarrow> a < length h \<and> (\<exists>d. h ! a = Numbers d \<and> tp s = Some d)" for s
    using t(2) [rule_format, of s] by (cases "trows s") (auto simp: same lt)
  have e': "case erows s of None \<Rightarrow> ep s = None
          | Some a \<Rightarrow> a < length h \<and> (\<exists>d. h ! a = Emissions d \<and> ep s = Some d)" for s
    using e(2) [rule_format, of s] by (cases "erows s") (auto simp: same lt)
  have "\<exists>rows. h ! ta = Rows rows \<and>
        (\<forall>s. case rows s of None \<Rightarrow> tp s = None
              | Some a \<Rightarrow> a < length h \<and> (\<exists>d. h ! a = Numbers d \<and> tp s = Some d))"
    using t(1) b(7) t' by (intro exI [of _ trows]) (simp add: same)
  moreover have "\<exists>rows. h ! ea = Rows rows \<and>
        (\<forall>s. case rows s of None \<Rightarrow> ep s = None
              | Some a \<Rightarrow> a < length h \<and> (\<exists>d. h ! a = Emissions d \<and> ep s = Some d))"
    using e(1) b(8) e' by (intro exI [of _ erows]) (simp add: same)
  ultimately show ?thesis
    unfolding represents_def using b by (simp add: same lt)
qed

lemma then_st_fst_snd:
  "then_st m f h = (case fst (m h) of Inl e \<Rightarrow> (Inl e, snd (m h)) | Inr x \<Rightarrow> f x (snd (m h)))"
  by (simp add: then_st_def split: prod.splits sum.splits)

lemma keepsD:
  "keeps I m R \<Longrightarrow> I h \<Longrightarrow> I (snd (m h))"
  by (simp add: keeps_def)

lemma keeps_resultD:
  "keeps I m R \<Longrightarrow> I h \<Longrightarrow> fst (m h) = Inr x \<Longrightarrow> R x"
  by (simp add: keeps_def)

lemma local_inv_represents:
  "represents h0 oa sa pa ta ea obs sts sp tp ep \<Longrightarrow> local_inv h0 V h \<Longrightarrow>
     represents h oa sa pa ta ea obs sts sp tp ep"
  by (rule represents_unchanged) (auto simp: local_inv_def)

lemma init_loop_refines:
  assumes rep0: "represents h0 oa sa pa ta ea obs sts sp tp ep"
    and p: "length h0 \<le> p"
  shows "local_inv h0 V h \<Longrightarrow> trellis_at h V ls Vs \<Longrightarrow> paths_at h p path \<Longrightarrow>
    (case for_each xs (init_step obs sp ep) (Vs, path) of
       Inl e \<Rightarrow> fst (for_each_st xs (st_init_step oa pa ea V p) () h) = Inl e
     | Inr (Vs', path') \<Rightarrow>
         fst (for_each_st xs (st_init_step oa pa ea V p) () h) = Inr () \<and>
         trellis_at (snd (for_each_st xs (st_init_step oa pa ea V p) () h)) V ls Vs' \<and>
         paths_at (snd (for_each_st xs (st_init_step oa pa ea V p) () h)) p path')"
proof (induction xs arbitrary: h Vs path)
  case Nil
  then show ?case by (simp add: result_of_apply)
next
  case (Cons x xs)
  let ?m = "st_init_step oa pa ea V p x () h"
  have inv1: "local_inv h0 V (snd ?m)"
    by (rule keepsD [OF st_init_step_keeps [OF p] Cons.prems(1)])
  have step: "case init_step obs sp ep x (Vs, path) of
           Inl e \<Rightarrow> fst ?m = Inl e
         | Inr (Vs', path') \<Rightarrow>
             fst ?m = Inr () \<and> trellis_at (snd ?m) V ls Vs' \<and> paths_at (snd ?m) p path'"
    by (rule st_init_step_refines [OF local_inv_represents [OF rep0 Cons.prems(1)]
          Cons.prems(2,3)])
  show ?case
  proof (cases "init_step obs sp ep x (Vs, path)")
    case (Inl e)
    with step have "fst ?m = Inl e" by simp
    then have "for_each_st (x # xs) (st_init_step oa pa ea V p) () h = (Inl e, snd ?m)"
      by (simp add: then_st_fst_snd)
    with Inl show ?thesis by simp
  next
    case (Inr st)
    obtain Vs1 path1 where st: "st = (Vs1, path1)" by (cases st)
    from step Inr st have r1: "fst ?m = Inr ()" and tr1: "trellis_at (snd ?m) V ls Vs1"
      and pt1: "paths_at (snd ?m) p path1" by simp_all
    from r1 have eq: "for_each_st (x # xs) (st_init_step oa pa ea V p) () h
        = for_each_st xs (st_init_step oa pa ea V p) () (snd ?m)"
      by (simp add: then_st_fst_snd)
    from Cons.IH [OF inv1 tr1 pt1] Inr st show ?thesis
      unfolding eq by simp
  qed
qed

lemma state_loop_refines:
  assumes rep0: "represents h0 oa sa pa ta ea obs sts sp tp ep"
    and np: "length h0 \<le> np" and ne: "p \<noteq> np"
  shows "local_inv h0 V h \<Longrightarrow> trellis_at h V ls Vs \<Longrightarrow> paths_at h p path \<Longrightarrow>
    paths_at h np new_path \<Longrightarrow>
    (case for_each xs (state_step t sts tp ep obs path) (Vs, new_path) of
       Inl e \<Rightarrow> fst (for_each_st xs (st_state_step t sa ta ea oa V p np) () h) = Inl e
     | Inr (Vs', new_path') \<Rightarrow>
         fst (for_each_st xs (st_state_step t sa ta ea oa V p np) () h) = Inr () \<and>
         trellis_at (snd (for_each_st xs (st_state_step t sa ta ea oa V p np) () h)) V ls Vs' \<and>
         paths_at (snd (for_each_st xs (st_state_step t sa ta ea oa V p np) () h)) np
           new_path')"
proof (induction xs arbitrary: h Vs new_path)
  case Nil
  then show ?case by (simp add: result_of_apply)
next
  case (Cons x xs)
  let ?m = "st_state_step t sa ta ea oa V p np x () h"
  have inv1: "local_inv h0 V (snd ?m)"
    by (rule keepsD [OF st_state_step_keeps [OF np] Cons.prems(1)])
  have step: "case state_step t sts tp ep obs path x (Vs, new_path) of
           Inl e \<Rightarrow> fst ?m = Inl e
         | Inr (Vs', new_path') \<Rightarrow>
             fst ?m = Inr () \<and> trellis_at (snd ?m) V ls Vs' \<and>
             paths_at (snd ?m) p path \<and> paths_at (snd ?m) np new_path'"
    by (rule st_state_step_refines [OF local_inv_represents [OF rep0 Cons.prems(1)]
          Cons.prems(2,3,4) ne])
  show ?case
  proof (cases "state_step t sts tp ep obs path x (Vs, new_path)")
    case (Inl e)
    with step have "fst ?m = Inl e" by simp
    then have "for_each_st (x # xs) (st_state_step t sa ta ea oa V p np) () h
        = (Inl e, snd ?m)"
      by (simp add: then_st_fst_snd)
    with Inl show ?thesis by simp
  next
    case (Inr st)
    obtain Vs1 new1 where st: "st = (Vs1, new1)" by (cases st)
    from step Inr st have r1: "fst ?m = Inr ()" and tr1: "trellis_at (snd ?m) V ls Vs1"
      and pt1: "paths_at (snd ?m) p path" and npt1: "paths_at (snd ?m) np new1" by simp_all
    from r1 have eq: "for_each_st (x # xs) (st_state_step t sa ta ea oa V p np) () h
        = for_each_st xs (st_state_step t sa ta ea oa V p np) () (snd ?m)"
      by (simp add: then_st_fst_snd)
    from Cons.IH [OF inv1 tr1 pt1 npt1] Inr st show ?thesis
      unfolding eq by simp
  qed
qed

lemma time_step_store:
  assumes inv: "local_inv h0 V h" and tr: "trellis_at h V ls Vs" and pt: "paths_at h p path"
    and h3: "h3 = (h @ [Numbers Map.empty])[V := Layers (ls @ [length h])]
                   @ [PathTable Map.empty]"
  shows "local_inv h0 V h3" "trellis_at h3 V (ls @ [length h]) (Vs @ [Map.empty])"
    "paths_at h3 p path" "paths_at h3 (Suc (length h)) Map.empty" "p \<noteq> Suc (length h)"
    "length h0 \<le> Suc (length h)"
proof -
  from tr have V: "V < length h" "h ! V = Layers ls" and len: "length ls = length Vs"
    and dist: "distinct ls"
    and lay: "\<And>i. i < length Vs \<Longrightarrow> ls ! i < length h \<and> h ! (ls ! i) = Numbers (Vs ! i)"
    by (simp_all add: trellis_at_def)
  from inv have un: "unchanged h0 h" and V0: "length h0 \<le> V"
    and old: "\<forall>l\<in>set ls. length h0 \<le> l"
    using V by (simp_all add: local_inv_def)
  from un have len0: "length h0 \<le> length h" by (rule unchanged_length)
  from pt have p: "p < length h" "h ! p = PathTable path" by (simp_all add: paths_at_def)
  from p V have pV: "p \<noteq> V" by auto
  have nth3: "h3 ! a = (if a = V then Layers (ls @ [length h]) else h ! a)"
    if "a < length h" for a
    using that V by (simp add: h3 nth_append nth_list_update)
  have at_l: "h3 ! length h = Numbers Map.empty"
    using V by (simp add: h3 nth_append nth_list_update)
  have at_np: "h3 ! Suc (length h) = PathTable Map.empty"
    by (simp add: h3 nth_append)
  have len3: "length h3 = Suc (Suc (length h))" by (simp add: h3)
  have "take (length h0) h3 = take (length h0) h"
    using len0 V0 by (simp add: h3)
  with un have un3: "unchanged h0 h3" by (simp add: unchanged_def)
  show "local_inv h0 V h3"
    using un3 V0 V old len0 by (auto simp: local_inv_def len3 nth3)
  have notin: "length h \<notin> set ls"
  proof
    assume "length h \<in> set ls"
    then obtain i where "i < length ls" "ls ! i = length h" by (auto simp: in_set_conv_nth)
    with lay [of i] len show False by simp
  qed
  have "(ls @ [length h]) ! i < length h3 \<and>
        h3 ! ((ls @ [length h]) ! i) = Numbers ((Vs @ [Map.empty]) ! i)"
    if i: "i < length (Vs @ [Map.empty])" for i
  proof (cases "i < length Vs")
    case True
    from lay [OF True] V have "ls ! i \<noteq> V" by auto
    with lay [OF True] True len show ?thesis by (simp add: nth_append nth3 len3)
  next
    case False
    with i have "i = length Vs" by simp
    with len at_l show ?thesis by (simp add: nth_append len3)
  qed
  then show "trellis_at h3 V (ls @ [length h]) (Vs @ [Map.empty])"
    using V len dist notin by (simp add: trellis_at_def len3 nth3)
  show "paths_at h3 p path" using p pV by (simp add: paths_at_def len3 nth3)
  show "paths_at h3 (Suc (length h)) Map.empty" by (simp add: paths_at_def len3 at_np)
  show "p \<noteq> Suc (length h)" using p by simp
  show "length h0 \<le> Suc (length h)" using len0 by simp
qed

lemma st_time_step_refines:
  assumes rep0: "represents h0 oa sa pa ta ea obs sts sp tp ep"
    and inv: "local_inv h0 V h" and tr: "trellis_at h V ls Vs" and pt: "paths_at h p path"
  shows "case time_step sts tp ep obs t (Vs, path) of
           Inl e \<Rightarrow> fst (st_time_step sa ta ea oa V t p h) = Inl e
         | Inr (Vs', path') \<Rightarrow>
             (\<exists>p' ls'. fst (st_time_step sa ta ea oa V t p h) = Inr p' \<and>
                trellis_at (snd (st_time_step sa ta ea oa V t p h)) V ls' Vs' \<and>
                paths_at (snd (st_time_step sa ta ea oa V t p h)) p' path')"
proof -
  define h3 where "h3 = (h @ [Numbers Map.empty])[V := Layers (ls @ [length h])]
                   @ [PathTable Map.empty]"
  let ?np = "Suc (length h)"
  let ?loop = "for_each_st sts (st_state_step t sa ta ea oa V p ?np) () h3"
  note st = time_step_store [OF inv tr pt h3_def]
  from tr have V: "V < length h" "h ! V = Layers ls" by (simp_all add: trellis_at_def)
  from local_inv_represents [OF rep0 st(1)]
  have a: "sa < length h3" "h3 ! sa = Labels sts" by (simp_all add: represents_def)
  have run: "st_time_step sa ta ea oa V t p h
      = (case fst ?loop of Inl e \<Rightarrow> (Inl e, snd ?loop) | Inr u \<Rightarrow> (Inr ?np, snd ?loop))"
    unfolding st_time_step_def
    using V a
    by (simp add: then_st_alloc then_st_fetch then_st_assign nth_append h3_def [symmetric]
        then_st_fst_snd [of "for_each_st sts f v" for f v] result_of_apply
        split: sum.splits)
  have loop: "case for_each sts (state_step t sts tp ep obs path) (Vs @ [Map.empty], Map.empty) of
       Inl e \<Rightarrow> fst ?loop = Inl e
     | Inr (Vs', new_path') \<Rightarrow>
         fst ?loop = Inr () \<and> trellis_at (snd ?loop) V (ls @ [length h]) Vs' \<and>
         paths_at (snd ?loop) ?np new_path'"
    by (rule state_loop_refines [OF rep0 st(6) st(5) st(1) st(2) st(3) st(4)])
  show ?thesis
  proof (cases "for_each sts (state_step t sts tp ep obs path) (Vs @ [Map.empty], Map.empty)")
    case (Inl e)
    with loop show ?thesis by (simp add: run time_step_def)
  next
    case (Inr st')
    obtain Vs' np' where "st' = (Vs', np')" by (cases st')
    with loop Inr show ?thesis by (auto simp: run time_step_def)
  qed
qed

lemma time_loop_refines:
  assumes rep0: "represents h0 oa sa pa ta ea obs sts sp tp ep"
  shows "local_inv h0 V h \<Longrightarrow> length h0 \<le> p \<Longrightarrow> trellis_at h V ls Vs \<Longrightarrow>
    paths_at h p path \<Longrightarrow>
    (case for_each ts (time_step sts tp ep obs) (Vs, path) of
       Inl e \<Rightarrow> fst (for_each_st ts (st_time_step sa ta ea oa V) p h) = Inl e
     | Inr (Vs', path') \<Rightarrow>
         (\<exists>p' ls'. fst (for_each_st ts (st_time_step sa ta ea oa V) p h) = Inr p' \<and>
            trellis_at (snd (for_each_st ts (st_time_step sa ta ea oa V) p h)) V ls' Vs' \<and>
            paths_at (snd (for_each_st ts (st_time_step sa ta ea oa V) p h)) p' path' \<and>
            local_inv h0 V (snd (for_each_st ts (st_time_step sa ta ea oa V) p h))))"
proof (induction ts arbitrary: h p ls Vs path)
  case Nil
  then show ?case by (auto simp: result_of_apply)
next
  case (Cons t ts)
  let ?m = "st_time_step sa ta ea oa V t p h"
  have inv1: "local_inv h0 V (snd ?m)"
    by (rule keepsD [OF st_time_step_keeps Cons.prems(1)])
  have step: "case time_step sts tp ep obs t (Vs, path) of
           Inl e \<Rightarrow> fst ?m = Inl e
         | Inr (Vs', path') \<Rightarrow>
             (\<exists>p' ls'. fst ?m = Inr p' \<and> trellis_at (snd ?m) V ls' Vs' \<and>
                paths_at (snd ?m) p' path')"
    by (rule st_time_step_refines [OF rep0 Cons.prems(1,3,4)])
  show ?case
  proof (cases "time_step sts tp ep obs t (Vs, path)")
    case (Inl e)
    with step have "fst ?m = Inl e" by simp
    then have "for_each_st (t # ts) (st_time_step sa ta ea oa V) p h = (Inl e, snd ?m)"
      by (simp add: then_st_fst_snd)
    with Inl show ?thesis by simp
  next
    case (Inr st)
    obtain Vs1 path1 where st: "st = (Vs1, path1)" by (cases st)
    from step Inr st obtain p1 ls1 where r1: "fst ?m = Inr p1"
      and tr1: "trellis_at (snd ?m) V ls1 Vs1" and pt1: "paths_at (snd ?m) p1 path1"
      by auto
    have p1: "length h0 \<le> p1"
      by (rule keeps_resultD [OF st_time_step_keeps Cons.prems(1) r1])
    from r1 have eq: "for_each_st (t # ts) (st_time_step sa ta ea oa V) p h
        = for_each_st ts (st_time_step sa ta ea oa V) p1 (snd ?m)"
      by (simp add: then_st_fst_snd)
    from Cons.IH [OF inv1 p1 tr1 pt1] Inr st show ?thesis
      unfolding eq by simp
  qed
qed

lemma st_decode_refines:
  assumes rep0: "represents h0 oa sa pa ta ea obs sts sp tp ep"
    and inv: "local_inv h0 V h" and p: "length h0 \<le> p"
    and tr: "trellis_at h V ls [Map.empty]" and pt: "paths_at h p Map.empty"
  shows "fst (st_decode oa sa pa ta ea V p h) =
           and_then (build_tables obs sts sp tp ep) (\<lambda>(Vs, path).
           and_then (max_final Vs sts) (\<lambda>(max_prob, final_state).
           and_then (subscript path final_state) (\<lambda>best_path.
           Inr (max_prob, best_path))))"
proof -
  define r1 where "r1 = fst (for_each_st sts (st_init_step oa pa ea V p) () h)"
  define h1 where "h1 = snd (for_each_st sts (st_init_step oa pa ea V p) () h)"
  define ts where "ts = [Suc 0..<length obs]"
  define r2 where "r2 = fst (for_each_st ts (st_time_step sa ta ea oa V) p h1)"
  define h2 where "h2 = snd (for_each_st ts (st_time_step sa ta ea oa V) p h1)"
  define rest :: "addr \<Rightarrow> ('a, 'b, real \<times> 'a list) action" where
    "rest = (\<lambda>path.
        then_st (fetch labels_of sa) (\<lambda>sts.
        then_st (generate_st (st_final_candidate V) sts) (\<lambda>finals.
        then_st (result_of (py_max finals)) (\<lambda>(max_prob, final_state).
        then_st (fetch path_table_of path) (\<lambda>paths.
        then_st (result_of (subscript paths final_state)) (\<lambda>best_path.
        result_of (Inr (max_prob, best_path))))))))"
  from local_inv_represents [OF rep0 inv]
  have a: "sa < length h" "h ! sa = Labels sts" by (simp_all add: represents_def)
  have "keeps (local_inv h0 V) (for_each_st sts (st_init_step oa pa ea V p) ()) (\<lambda>_. True)"
    by (rule keeps_for_each [where P = "\<lambda>_. True"]) (rule st_init_step_keeps [OF p], rule TrueI)
  from keepsD [OF this inv] have inv1: "local_inv h0 V h1" by (simp add: h1_def)
  from local_inv_represents [OF rep0 inv1]
  have b: "oa < length h1" "h1 ! oa = Symbols obs" by (simp_all add: represents_def)
  have init: "case for_each sts (init_step obs sp ep) ([Map.empty], Map.empty) of
       Inl e \<Rightarrow> r1 = Inl e
     | Inr (Vs', path') \<Rightarrow> r1 = Inr () \<and> trellis_at h1 V ls Vs' \<and> paths_at h1 p path'"
    unfolding r1_def h1_def by (rule init_loop_refines [OF rep0 p inv tr pt])
  have run1: "st_decode oa sa pa ta ea V p h =
      (case r1 of Inl e \<Rightarrow> (Inl e, h1)
       | Inr u \<Rightarrow> (case r2 of Inl e \<Rightarrow> (Inl e, h2) | Inr path \<Rightarrow> rest path h2))"
    unfolding st_decode_def using a
    apply (simp add: then_st_fetch)
    apply (subst then_st_fst_snd)
    apply (fold r1_def h1_def)
    apply (cases r1)
     apply simp
    apply (simp add: then_st_fetch b)
    apply (fold ts_def)
    apply (subst then_st_fst_snd)
    apply (fold r2_def h2_def)
    apply (simp add: rest_def split: sum.splits)
    done
  show ?thesis
  proof (cases "for_each sts (init_step obs sp ep) ([Map.empty], Map.empty)")
    case (Inl e)
    with init have "r1 = Inl e" by simp
    with Inl show ?thesis by (simp add: run1 build_tables_def)
  next
    case (Inr st)
    obtain Vs1 path1 where st: "st = (Vs1, path1)" by (cases st)
    from init Inr st have r1: "r1 = Inr ()" and tr1: "trellis_at h1 V ls Vs1"
      and pt1: "paths_at h1 p path1" by simp_all
    have time: "case for_each ts (time_step sts tp ep obs) (Vs1, path1) of
       Inl e \<Rightarrow> r2 = Inl e
     | Inr (Vs', path') \<Rightarrow>
         (\<exists>p' ls'. r2 = Inr p' \<and> trellis_at h2 V ls' Vs' \<and>
            paths_at h2 p' path' \<and> local_inv h0 V h2)"
      unfolding r2_def h2_def by (rule time_loop_refines [OF rep0 inv1 p tr1 pt1])
    have bt: "build_tables obs sts sp tp ep
                = for_each ts (time_step sts tp ep obs) (Vs1, path1)"
      using Inr st by (simp add: build_tables_def ts_def)
    show ?thesis
    proof (cases "for_each ts (time_step sts tp ep obs) (Vs1, path1)")
      case (Inl e)
      with time have "r2 = Inl e" by simp
      with Inl r1 show ?thesis by (simp add: run1 bt)
    next
      case Inr2: (Inr st2)
      obtain Vs2 path2 where st2: "st2 = (Vs2, path2)" by (cases st2)
      from time Inr2 st2 obtain p2 ls2 where r2: "r2 = Inr p2"
        and tr2: "trellis_at h2 V ls2 Vs2" and pt2: "paths_at h2 p2 path2"
        and inv2: "local_inv h0 V h2" by auto
      from local_inv_represents [OF rep0 inv2]
      have c: "sa < length h2" "h2 ! sa = Labels sts" by (simp_all add: represents_def)
      have gen: "generate_st (st_final_candidate V) xs h2
                   = (generate (final_candidate Vs2) xs, h2)" for xs
        by (rule generate_st_read) (rule st_final_candidate_refines [OF tr2])
      have then_gen: "then_st (generate_st (st_final_candidate V) xs) f h2
          = (case generate (final_candidate Vs2) xs of
               Inl e \<Rightarrow> (Inl e, h2) | Inr x \<Rightarrow> f x h2)"
        for xs and f :: "(real \<times> 'a) list \<Rightarrow> ('a, 'b, real \<times> 'a list) action"
        by (simp add: then_st_def gen split: sum.splits)
      have "fst (rest p2 h2) =
           and_then (max_final Vs2 sts) (\<lambda>(max_prob, final_state).
           and_then (subscript path2 final_state) (\<lambda>best_path.
           Inr (max_prob, best_path)))"
        unfolding rest_def using c
        by (simp add: then_st_fetch then_gen then_st_result read_paths [OF pt2]
            result_of_apply max_final_def and_then_def split: sum.splits prod.splits)
      with r1 r2 Inr2 st2 show ?thesis by (simp add: run1 bt)
    qed
  qed
qed

lemma st_viterbi_refines_aux:
  assumes rep: "represents h oa sa pa ta ea obs sts sp tp ep"
  shows "fst (st_viterbi oa sa pa ta ea h) = viterbi (PyList obs) (PyList sts) sp tp ep"
proof (cases "validate_input (PyList obs) (PyList sts) sp tp ep")
  case (Inl e)
  then show ?thesis
    by (simp add: st_viterbi_def viterbi_def then_st_def st_validate_input_refines [OF rep])
next
  case (Inr u)
  let ?h' = "h @ [Numbers Map.empty, Layers [length h], PathTable Map.empty]"
  let ?V = "Suc (length h)" and ?p = "Suc (Suc (length h))"
  have inv: "local_inv h ?V ?h'"
    by (simp add: local_inv_def unchanged_def nth_append)
  have tr: "trellis_at ?h' ?V [length h] [Map.empty]"
    by (simp add: trellis_at_def nth_append)
  have pt: "paths_at ?h' ?p Map.empty"
    by (simp add: paths_at_def nth_append)
  have p: "length h \<le> ?p" by simp
  from st_decode_refines [OF rep inv p tr pt] Inr show ?thesis
    by (simp add: st_viterbi_def viterbi_def then_st_def st_validate_input_refines [OF rep]
        alloc_def)
qed

lemma viterbi_list_tuple:
  "viterbi (PyList obs) (PyList sts) sp tp ep = viterbi (PyTuple obs) (PyTuple sts) sp tp ep"
  by (simp add: viterbi_def validate_input_def)

lemma ex_store_represents:
  "represents ex_store 0 1 2 3 4 (items ex_observations) (items ex_states)
     ex_start_prob ex_trans_prob ex_emit_prob"
  unfolding represents_def
  by (auto simp: ex_store_def ex_observations_def ex_states_def ex_start_prob_def
      ex_trans_prob_def ex_emit_prob_def)

section \<open>The floating-point model: what the validator accepts\<close>

lemma dom_real_table [simp]: "dom (real_table row) = dom row"
  by (auto simp: real_table_def dom_def)

lemma dom_real_rows [simp]: "dom (real_rows table) = dom table"
  by (auto simp: real_rows_def dom_def)

lemma real_rows_keys:
  "and_then (subscript (real_rows table) s) (\<lambda>row. Inr (dom row = keys))
     = and_then (subscript table s) (\<lambda>row. Inr (dom row = keys))"
  by (simp add: subscript_def real_rows_def split: option.splits)

lemma fl_validate_input_real:
  "fl_validate_input observations states sp tp ep =
     validate_input observations states (real_table sp) (real_rows tp) (real_rows ep)"
  by (simp add: fl_validate_input_def validate_input_def real_rows_keys)

lemma fl_validate_input_Inr_iff:
  "fl_validate_input observations states sp tp ep = Inr () \<longleftrightarrow>
     is_list_or_tuple observations \<and> is_list_or_tuple states \<and>
     fl_valid_tables (items observations) (items states) sp tp ep"
  by (simp add: fl_validate_input_real validate_input_Inr_iff fl_valid_tables_def)

lemma fl_valid_tables_start:
  assumes "fl_valid_tables obs states sp tp ep" "s \<in> set states"
  shows "sp s = Some (fl_start_of sp s)"
proof -
  from assms have "s \<in> dom sp" by (simp add: fl_valid_tables_def valid_tables_def)
  then show ?thesis by (auto simp: fl_start_of_def)
qed

lemma real_rows_inner_keys:
  "inner_keys (real_rows table) states keys \<longleftrightarrow>
     (\<forall>s\<in>set states. case table s of None \<Rightarrow> False | Some row \<Rightarrow> dom row = keys)"
  by (auto simp: inner_keys_def real_rows_def split: option.splits)

lemma fl_inner_keysD:
  assumes "inner_keys (real_rows table) states keys" "s \<in> set states" "k \<in> keys"
  shows "\<exists>row v. table s = Some row \<and> row k = Some v"
proof -
  from assms(1,2) obtain row where row: "table s = Some row" "dom row = keys"
    by (auto simp: real_rows_inner_keys split: option.splits)
  with assms(3) have "k \<in> dom row" by simp
  then obtain v where "row k = Some v" by blast
  with row show ?thesis by blast
qed

lemma fl_valid_tables_trans:
  assumes "fl_valid_tables obs states sp tp ep" "p \<in> set states" "c \<in> set states"
  shows "\<exists>row. tp p = Some row \<and> row c = Some (fl_trans_of tp p c)"
proof -
  from assms(1) have "inner_keys (real_rows tp) states (set states)"
    by (simp add: fl_valid_tables_def valid_tables_def)
  from fl_inner_keysD [OF this assms(2,3)] show ?thesis by (auto simp: fl_trans_of_def)
qed

lemma fl_valid_tables_emit:
  assumes "fl_valid_tables obs states sp tp ep" "s \<in> set states" "ob \<in> set obs"
  shows "\<exists>row. ep s = Some row \<and> row ob = Some (fl_emit_of ep s ob)"
proof -
  from assms(1) have "inner_keys (real_rows ep) states (set obs)"
    by (simp add: fl_valid_tables_def valid_tables_def)
  from fl_inner_keysD [OF this assms(2,3)] show ?thesis by (auto simp: fl_emit_of_def)
qed

section \<open>The floating-point model: the tables the loops build\<close>

lemma fl_running_max_mem:
  "foldl (\<lambda>m y. if fl_tuple_gt y m then y else m) x xs \<in> set (x # xs)"
proof (induction xs arbitrary: x)
  case Nil
  show ?case by simp
next
  case (Cons a xs)
  from Cons.IH [of "if fl_tuple_gt a x then a else x"] show ?case
    by (auto split: if_splits)
qed

lemma fl_py_max_nonempty:
  assumes "xs \<noteq> []"
  shows "\<exists>m. fl_py_max xs = Inr m \<and> m \<in> set xs"
proof (cases xs)
  case Nil
  with assms show ?thesis by simp
next
  case (Cons x xs')
  with fl_running_max_mem [of x xs'] show ?thesis by simp
qed

lemma fl_init_loop:
  assumes "fl_valid_tables obs states sp tp ep" "obs \<noteq> []" "set xs \<subseteq> set states"
  shows "for_each xs (fl_init_step obs sp ep) ([V0], path) =
           Inr ([\<lambda>s. if s \<in> set xs then Some (fst (fl_best obs states sp tp ep 0 s)) else V0 s],
                \<lambda>s. if s \<in> set xs then Some (snd (fl_best obs states sp tp ep 0 s)) else path s)"
  using assms(3)
proof (induction xs arbitrary: V0 path)
  case Nil
  then show ?case by simp
next
  case (Cons x xs)
  from Cons.prems have x: "x \<in> set states" and xs: "set xs \<subseteq> set states" by simp_all
  from assms(2) have ob: "obs ! 0 \<in> set obs" by simp
  obtain row where row: "ep x = Some row" "row (obs ! 0) = Some (fl_emit_of ep x (obs ! 0))"
    using fl_valid_tables_emit [OF assms(1) x ob] by blast
  have step: "fl_init_step obs sp ep x ([V0], path) =
      Inr ([V0(x \<mapsto> float_mul (fl_start_of sp x) (fl_emit_of ep x (obs ! 0)))], path(x \<mapsto> [x]))"
    using assms(2) row fl_valid_tables_start [OF assms(1) x]
    by (simp add: fl_init_step_def subscript_def item_def)
  show ?case
    by (simp add: step Cons.IH [OF xs]) (auto simp: fun_eq_iff)
qed

lemma fl_max_previous_value:
  assumes valid: "fl_valid_tables obs states sp tp ep"
    and t: "Suc t < length obs"
    and len: "length Vs = Suc t"
    and prev: "Vs ! t = on_states states (\<lambda>s. fst (fl_best obs states sp tp ep t s))"
    and c: "c \<in> set states"
  shows "fl_max_previous (Vs @ [L]) (Suc t) states tp ep obs c =
           fl_py_max (map (\<lambda>p. (float_mul (float_mul (fst (fl_best obs states sp tp ep t p))
                                                (fl_trans_of tp p c))
                                     (fl_emit_of ep c (obs ! Suc t)), p)) states)"
proof -
  let ?g = "\<lambda>p. (float_mul (float_mul (fst (fl_best obs states sp tp ep t p)) (fl_trans_of tp p c))
                    (fl_emit_of ep c (obs ! Suc t)), p)"
  from t have ob: "obs ! Suc t \<in> set obs" by simp
  obtain erow where erow: "ep c = Some erow"
      "erow (obs ! Suc t) = Some (fl_emit_of ep c (obs ! Suc t))"
    using fl_valid_tables_emit [OF valid c ob] by blast
  have cand: "fl_candidate (Vs @ [L]) (Suc t) tp ep obs c p = Inr (?g p)"
    if p: "p \<in> set states" for p
  proof -
    obtain trow where "tp p = Some trow" "trow c = Some (fl_trans_of tp p c)"
      using fl_valid_tables_trans [OF valid p c] by blast
    then show ?thesis
      using t len prev p erow
      by (simp add: fl_candidate_def item_def subscript_def nth_append on_states_def)
  qed
  have "generate (fl_candidate (Vs @ [L]) (Suc t) tp ep obs c) states = Inr (map ?g states)"
    by (rule generate_map) (rule cand)
  then show ?thesis by (simp add: fl_max_previous_def)
qed

lemma fl_best_Suc_choice:
  assumes c: "c \<in> set states"
  shows "\<exists>m q. fl_py_max (map (\<lambda>p. (float_mul (float_mul (fst (fl_best obs states sp tp ep t p))
                                                  (fl_trans_of tp p c))
                                         (fl_emit_of ep c (obs ! Suc t)), p)) states) = Inr (m, q)
           \<and> q \<in> set states
           \<and> m = float_mul (float_mul (fst (fl_best obs states sp tp ep t q)) (fl_trans_of tp q c))
                   (fl_emit_of ep c (obs ! Suc t))
           \<and> fl_best obs states sp tp ep (Suc t) c
               = (m, snd (fl_best obs states sp tp ep t q) @ [c])"
proof -
  let ?g = "\<lambda>p. (float_mul (float_mul (fst (fl_best obs states sp tp ep t p)) (fl_trans_of tp p c))
                    (fl_emit_of ep c (obs ! Suc t)), p)"
  from c have "states \<noteq> []" by (cases states) simp_all
  then have "map ?g states \<noteq> []" by simp
  from fl_py_max_nonempty [OF this] obtain mq where
    mq: "fl_py_max (map ?g states) = Inr mq" "mq \<in> set (map ?g states)"
    by (elim exE conjE)
  obtain m q where eq: "mq = (m, q)" by (cases mq)
  from mq(2) eq have q: "q \<in> set states" and m: "m = fst (?g q)" by auto
  have "fl_best obs states sp tp ep (Suc t) c = (m, snd (fl_best obs states sp tp ep t q) @ [c])"
    using mq(1) eq by simp
  with mq(1) eq q m show ?thesis by simp
qed

lemma fl_state_step_value:
  assumes valid: "fl_valid_tables obs states sp tp ep"
    and t: "Suc t < length obs"
    and len: "length Vs = Suc t"
    and prev: "Vs ! t = on_states states (\<lambda>s. fst (fl_best obs states sp tp ep t s))"
    and c: "c \<in> set states"
  shows "fl_state_step (Suc t) states tp ep obs (fl_paths obs states sp tp ep t) c (Vs @ [L], np) =
           Inr (Vs @ [L(c \<mapsto> fst (fl_best obs states sp tp ep (Suc t) c))],
                np(c \<mapsto> snd (fl_best obs states sp tp ep (Suc t) c)))"
proof -
  from fl_best_Suc_choice [OF c, of obs sp tp ep t] obtain m q where
    mx: "fl_py_max (map (\<lambda>p. (float_mul (float_mul (fst (fl_best obs states sp tp ep t p))
                                          (fl_trans_of tp p c))
                               (fl_emit_of ep c (obs ! Suc t)), p)) states) = Inr (m, q)"
    and q: "q \<in> set states"
    and bst: "fl_best obs states sp tp ep (Suc t) c
               = (m, snd (fl_best obs states sp tp ep t q) @ [c])"
    by blast
  have upd: "(Vs @ [L])[Suc t := X] = Vs @ [X]" for X
    unfolding len [symmetric] by simp
  have sel: "fl_max_previous (Vs @ [L]) (Suc t) states tp ep obs c = Inr (m, q)"
    unfolding fl_max_previous_value [OF valid t len prev c] by (rule mx)
  show ?thesis
    unfolding fl_state_step_def
    using len q
    by (simp add: sel bst item_def subscript_def nth_append fl_paths_def on_states_def upd
        del: fl_best.simps)
qed

lemma fl_state_loop:
  assumes valid: "fl_valid_tables obs states sp tp ep"
    and t: "Suc t < length obs"
    and len: "length Vs = Suc t"
    and prev: "Vs ! t = on_states states (\<lambda>s. fst (fl_best obs states sp tp ep t s))"
    and xs: "set xs \<subseteq> set states"
  shows "for_each xs (fl_state_step (Suc t) states tp ep obs (fl_paths obs states sp tp ep t))
           (Vs @ [L], np) =
         Inr (Vs @ [\<lambda>c. if c \<in> set xs then Some (fst (fl_best obs states sp tp ep (Suc t) c))
                         else L c],
              \<lambda>c. if c \<in> set xs then Some (snd (fl_best obs states sp tp ep (Suc t) c))
                   else np c)"
  using xs
proof (induction xs arbitrary: L np)
  case Nil
  show ?case by simp
next
  case (Cons x xs)
  from Cons.prems have x: "x \<in> set states" and xs: "set xs \<subseteq> set states" by simp_all
  show ?case
    by (simp add: fl_state_step_value [OF valid t len prev x] Cons.IH [OF xs] del: fl_best.simps)
       (auto simp: fun_eq_iff)
qed

lemma fl_layers_Suc:
  "fl_layers obs states sp tp ep (Suc n) =
     fl_layers obs states sp tp ep n
       @ [on_states states (\<lambda>s. fst (fl_best obs states sp tp ep n s))]"
  by (simp add: fl_layers_def)

lemma fl_length_layers [simp]: "length (fl_layers obs states sp tp ep n) = n"
  by (simp add: fl_layers_def)

lemma fl_nth_layers:
  "i < n \<Longrightarrow> fl_layers obs states sp tp ep n ! i
     = on_states states (\<lambda>s. fst (fl_best obs states sp tp ep i s))"
  by (simp add: fl_layers_def)

lemma fl_time_step_value:
  assumes valid: "fl_valid_tables obs states sp tp ep" and t: "Suc t < length obs"
  shows "fl_time_step states tp ep obs (Suc t)
           (fl_layers obs states sp tp ep (Suc t), fl_paths obs states sp tp ep t) =
         Inr (fl_layers obs states sp tp ep (Suc (Suc t)), fl_paths obs states sp tp ep (Suc t))"
proof -
  have "for_each states (fl_state_step (Suc t) states tp ep obs (fl_paths obs states sp tp ep t))
          (fl_layers obs states sp tp ep (Suc t) @ [Map.empty], Map.empty) =
        Inr (fl_layers obs states sp tp ep (Suc t)
               @ [on_states states (\<lambda>s. fst (fl_best obs states sp tp ep (Suc t) s))],
             on_states states (\<lambda>s. snd (fl_best obs states sp tp ep (Suc t) s)))"
    unfolding on_states_def
    by (rule fl_state_loop [OF valid t]) (simp_all add: fl_nth_layers on_states_def)
  then show ?thesis
    by (simp add: fl_time_step_def fl_layers_Suc [of _ _ _ _ _ "Suc t"] fl_paths_def
        del: fl_best.simps)
qed

lemma fl_time_loop:
  assumes valid: "fl_valid_tables obs states sp tp ep" and k: "k < length obs"
  shows "for_each [Suc k..<length obs] (fl_time_step states tp ep obs)
           (fl_layers obs states sp tp ep (Suc k), fl_paths obs states sp tp ep k) =
         Inr (fl_layers obs states sp tp ep (length obs),
              fl_paths obs states sp tp ep (length obs - 1))"
  using k
proof (induction "length obs - Suc k" arbitrary: k)
  case 0
  then have "Suc k = length obs" by simp
  then have "[Suc k..<length obs] = []" "length obs - 1 = k" by simp_all
  with \<open>Suc k = length obs\<close> show ?case by simp
next
  case (Suc n)
  then have t: "Suc k < length obs" by simp
  from Suc(1) [of "Suc k"] Suc(2) t
  have IH: "for_each [Suc (Suc k)..<length obs] (fl_time_step states tp ep obs)
           (fl_layers obs states sp tp ep (Suc (Suc k)), fl_paths obs states sp tp ep (Suc k)) =
         Inr (fl_layers obs states sp tp ep (length obs),
              fl_paths obs states sp tp ep (length obs - 1))"
    by simp
  show ?case
    by (simp add: upt_conv_Cons [OF t] fl_time_step_value [OF valid t] IH del: fl_best.simps)
qed

lemma fl_build_tables_value:
  assumes valid: "fl_valid_tables obs states sp tp ep" and obs: "obs \<noteq> []"
  shows "fl_build_tables obs states sp tp ep =
           Inr (fl_layers obs states sp tp ep (length obs),
                fl_paths obs states sp tp ep (length obs - 1))"
proof -
  have "for_each states (fl_init_step obs sp ep) ([Map.empty], Map.empty) =
          Inr (fl_layers obs states sp tp ep (Suc 0), fl_paths obs states sp tp ep 0)"
    unfolding fl_init_loop [OF valid obs subset_refl]
    by (simp add: fl_layers_def fl_paths_def on_states_def cong: if_cong)
  moreover from obs have "0 < length obs" by simp
  ultimately show ?thesis
    using fl_time_loop [OF valid \<open>0 < length obs\<close>] by (simp add: fl_build_tables_def)
qed

section \<open>The floating-point model: what the decoder returns\<close>

lemma fl_max_final_value:
  assumes obs: "obs \<noteq> []"
  shows "fl_max_final (fl_layers obs states sp tp ep (length obs)) states =
           fl_py_max (map (\<lambda>s. (fst (fl_best obs states sp tp ep (length obs - 1) s), s)) states)"
proof -
  from obs obtain n where n: "length obs = Suc n" by (cases obs) simp_all
  have "fl_final_candidate (fl_layers obs states sp tp ep (length obs)) s
          = Inr (fst (fl_best obs states sp tp ep (length obs - 1) s), s)"
    if "s \<in> set states" for s
    using that
    by (simp add: fl_final_candidate_def last_item_def fl_layers_Suc n subscript_def on_states_def
        del: fl_best.simps)
  then have "generate (fl_final_candidate (fl_layers obs states sp tp ep (length obs))) states =
      Inr (map (\<lambda>s. (fst (fl_best obs states sp tp ep (length obs - 1) s), s)) states)"
    by (rule generate_map)
  then show ?thesis by (simp add: fl_max_final_def)
qed

lemma fl_viterbi_value:
  assumes ok: "fl_validate_input observations states sp tp ep = Inr ()"
    and obs: "items observations \<noteq> []" and sts: "items states \<noteq> []"
  shows "\<exists>q\<in>set (items states).
           fl_viterbi observations states sp tp ep =
             Inr (fl_best (items observations) (items states) sp tp ep
                    (length (items observations) - 1) q) \<and>
           fl_py_max (map (\<lambda>s. (fst (fl_best (items observations) (items states) sp tp ep
                                        (length (items observations) - 1) s), s))
                        (items states))
             = Inr (fst (fl_best (items observations) (items states) sp tp ep
                           (length (items observations) - 1) q), q)"
proof -
  let ?obs = "items observations" and ?sts = "items states"
  let ?T = "length ?obs - 1"
  let ?g = "\<lambda>s. (fst (fl_best ?obs ?sts sp tp ep ?T s), s)"
  from ok have valid: "fl_valid_tables ?obs ?sts sp tp ep"
    by (simp add: fl_validate_input_Inr_iff)
  from sts have "map ?g ?sts \<noteq> []" by simp
  from fl_py_max_nonempty [OF this] obtain mq where
    mq: "fl_py_max (map ?g ?sts) = Inr mq" "mq \<in> set (map ?g ?sts)"
    by (elim exE conjE)
  from mq(2) obtain q where q: "q \<in> set ?sts" and eq: "mq = ?g q" by auto
  have mf: "fl_max_final (fl_layers ?obs ?sts sp tp ep (length ?obs)) ?sts = Inr (?g q)"
    unfolding fl_max_final_value [OF obs] mq(1) eq ..
  have pq: "subscript (fl_paths ?obs ?sts sp tp ep ?T) q
              = Inr (snd (fl_best ?obs ?sts sp tp ep ?T q))"
    using q by (simp add: subscript_def fl_paths_def on_states_def del: fl_best.simps)
  have "fl_viterbi observations states sp tp ep = Inr (fl_best ?obs ?sts sp tp ep ?T q)"
    unfolding fl_viterbi_def ok and_then_simps fl_build_tables_value [OF valid obs] prod.case mf pq
    by simp
  moreover have "fl_py_max (map ?g ?sts) = Inr (?g q)" using mq(1) eq by simp
  ultimately show ?thesis using q by blast
qed

section \<open>The floating-point model: exact products\<close>

text \<open>A product that is a float is not changed by the rounding.\<close>

lemma round_to_double_fits:
  assumes "bit_length m \<le> 53" "- 1074 \<le> e" "int (bit_length m) + e \<le> 1024"
  shows "round_to_double s m e = Finite s m e"
  using assms by (simp add: round_to_double_def)

lemma real_start_of:
  assumes "fl_valid_tables obs states sp tp ep" "s \<in> set states"
  shows "start_of (real_table sp) s = float_val (fl_start_of sp s)"
  using fl_valid_tables_start [OF assms] by (simp add: start_of_def real_table_def)

lemma real_trans_of:
  assumes "fl_valid_tables obs states sp tp ep" "p \<in> set states" "c \<in> set states"
  shows "trans_of (real_rows tp) p c = float_val (fl_trans_of tp p c)"
  using fl_valid_tables_trans [OF assms]
  by (auto simp: trans_of_def real_rows_def real_table_def)

lemma real_emit_of:
  assumes "fl_valid_tables obs states sp tp ep" "s \<in> set states" "ob \<in> set obs"
  shows "emit_of (real_rows ep) s ob = float_val (fl_emit_of ep s ob)"
  using fl_valid_tables_emit [OF assms]
  by (auto simp: emit_of_def real_rows_def real_table_def)

lemma fl_tuple_gt_val:
  assumes "is_finite (fst x)" "is_finite (fst y)"
  shows "fl_tuple_gt x y \<longleftrightarrow> tuple_gt (float_val (fst x), snd x) (float_val (fst y), snd y)"
proof -
  obtain p s q r where xy: "x = (p, s)" "y = (q, r)" by (cases x; cases y) blast
  from assms xy obtain a m e b n f where "p = Finite a m e" "q = Finite b n f"
    by (cases p; cases q) simp_all
  with xy show ?thesis by auto
qed

lemma fl_running_max_val:
  assumes "\<forall>y\<in>set (x # xs). is_finite (fst y)"
  shows "foldl (\<lambda>m y. if tuple_gt y m then y else m) (float_val (fst x), snd x)
           (map (\<lambda>y. (float_val (fst y), snd y)) xs)
         = (float_val (fst (foldl (\<lambda>m y. if fl_tuple_gt y m then y else m) x xs)),
            snd (foldl (\<lambda>m y. if fl_tuple_gt y m then y else m) x xs))"
  using assms
proof (induction xs arbitrary: x)
  case Nil
  show ?case by simp
next
  case (Cons a xs)
  from Cons.prems have fin: "is_finite (fst a)" "is_finite (fst x)" by simp_all
  let ?x' = "if fl_tuple_gt a x then a else x"
  from Cons.prems have "\<forall>y\<in>set (?x' # xs). is_finite (fst y)" by simp
  from Cons.IH [OF this]
  have IH: "foldl (\<lambda>m y. if tuple_gt y m then y else m) (float_val (fst ?x'), snd ?x')
           (map (\<lambda>y. (float_val (fst y), snd y)) xs)
         = (float_val (fst (foldl (\<lambda>m y. if fl_tuple_gt y m then y else m) ?x' xs)),
            snd (foldl (\<lambda>m y. if fl_tuple_gt y m then y else m) ?x' xs))" .
  have eq: "tuple_gt (float_val (fst a), snd a) (float_val (fst x), snd x) = fl_tuple_gt a x"
    using fl_tuple_gt_val [OF fin] by simp
  show ?case
    using IH by (cases "fl_tuple_gt a x") (simp_all add: eq del: tuple_gt.simps fl_tuple_gt.simps)
qed

lemma fl_py_max_val:
  assumes "fl_py_max xs = Inr m" "\<forall>y\<in>set xs. is_finite (fst y)"
  shows "py_max (map (\<lambda>y. (float_val (fst y), snd y)) xs) = Inr (float_val (fst m), snd m)"
proof (cases xs)
  case Nil
  with assms show ?thesis by simp
next
  case (Cons x xs')
  with assms fl_running_max_val [of x xs'] show ?thesis by auto
qed

lemma fl_prefix_cong:
  "(\<And>i. i \<le> t \<Longrightarrow> ss ! i = ss' ! i) \<Longrightarrow>
     fl_prefix sp tp ep obs ss t = fl_prefix sp tp ep obs ss' t"
  by (induction t) simp_all

lemma exact_prefix_cong:
  "(\<And>i. i \<le> t \<Longrightarrow> ss ! i = ss' ! i) \<Longrightarrow>
     exact_prefix sp tp ep obs ss t = exact_prefix sp tp ep obs ss' t"
proof (induction t)
  case 0
  then show ?case by simp
next
  case (Suc t)
  from Suc.prems have "fl_prefix sp tp ep obs ss t = fl_prefix sp tp ep obs ss' t"
    by (intro fl_prefix_cong) simp
  moreover from Suc.prems have "exact_prefix sp tp ep obs ss t = exact_prefix sp tp ep obs ss' t"
    by (intro Suc.IH) simp
  moreover from Suc.prems have "ss ! t = ss' ! t" "ss ! Suc t = ss' ! Suc t" by simp_all
  ultimately show ?case by simp
qed

lemma exact_prefix_mono:
  "exact_prefix sp tp ep obs ss t \<Longrightarrow> k \<le> t \<Longrightarrow> exact_prefix sp tp ep obs ss k"
proof (induction t)
  case 0
  then show ?case by simp
next
  case (Suc t)
  then show ?case by (cases "k = Suc t") simp_all
qed

lemma exact_products_prefix:
  assumes ex: "exact_products obs states sp tp ep"
    and t: "t < length obs" and len: "length ss = Suc t" and sub: "set ss \<subseteq> set states"
  shows "exact_prefix sp tp ep obs ss t"
proof -
  from len have "ss \<noteq> []" by auto
  with sub obtain c where c: "c \<in> set states" by (cases ss) auto
  let ?ss = "ss @ replicate (length obs - Suc t) c"
  from t len have "length ?ss = length obs" by simp
  moreover from sub c have "set ?ss \<subseteq> set states" by auto
  ultimately have "?ss \<in> set (List.n_lists (length obs) states)" by (simp add: set_n_lists)
  with ex have "exact_prefix sp tp ep obs ?ss (length obs - 1)"
    unfolding exact_products_def by blast
  moreover from t have "t \<le> length obs - 1" by simp
  ultimately have "exact_prefix sp tp ep obs ?ss t" by (rule exact_prefix_mono)
  moreover have "exact_prefix sp tp ep obs ?ss t = exact_prefix sp tp ep obs ss t"
    by (rule exact_prefix_cong) (simp add: nth_append len)
  ultimately show ?thesis by simp
qed

lemma fl_best_exact:
  assumes valid: "fl_valid_tables obs states sp tp ep"
    and ex: "exact_products obs states sp tp ep"
  shows "t < length obs \<Longrightarrow> s \<in> set states \<Longrightarrow>
     fst (fl_best obs states sp tp ep t s)
       = fl_prefix sp tp ep obs (snd (fl_best obs states sp tp ep t s)) t \<and>
     snd (fl_best obs states sp tp ep t s)
       = snd (best obs states (real_table sp) (real_rows tp) (real_rows ep) t s) \<and>
     is_finite (fst (fl_best obs states sp tp ep t s)) \<and>
     float_val (fst (fl_best obs states sp tp ep t s))
       = fst (best obs states (real_table sp) (real_rows tp) (real_rows ep) t s)"
proof (induction t arbitrary: s)
  case 0
  then have ob: "obs ! 0 \<in> set obs" by simp
  from 0 have "exact_prefix sp tp ep obs [s] 0"
    by (intro exact_products_prefix [OF ex]) simp_all
  then have "exact_mul (fl_start_of sp s) (fl_emit_of ep s (obs ! 0))" by simp
  then show ?case
    using real_start_of [OF valid 0(2)] real_emit_of [OF valid 0(2) ob]
    by (simp add: exact_mul_def)
next
  case (Suc t)
  let ?rsp = "real_table sp" and ?rtp = "real_rows tp" and ?rep = "real_rows ep"
  let ?F = "\<lambda>p. float_mul (float_mul (fst (fl_best obs states sp tp ep t p)) (fl_trans_of tp p s))
                   (fl_emit_of ep s (obs ! Suc t))"
  let ?R = "\<lambda>p. fst (best obs states ?rsp ?rtp ?rep t p) * trans_of ?rtp p s
                   * emit_of ?rep s (obs ! Suc t)"
  from Suc.prems have t: "t < length obs" and ob: "obs ! Suc t \<in> set obs" by simp_all
  note s = Suc.prems(2)
  have cand: "is_finite (?F p) \<and> float_val (?F p) = ?R p \<and>
      ?F p = fl_prefix sp tp ep obs (snd (fl_best obs states sp tp ep t p) @ [s]) (Suc t)"
    if p: "p \<in> set states" for p
  proof -
    let ?pp = "snd (fl_best obs states sp tp ep t p)"
    from Suc.IH [OF t p] have
      pre: "fst (fl_best obs states sp tp ep t p) = fl_prefix sp tp ep obs ?pp t"
      and pth: "?pp = snd (best obs states ?rsp ?rtp ?rep t p)"
      and v: "float_val (fst (fl_best obs states sp tp ep t p))
                = fst (best obs states ?rsp ?rtp ?rep t p)"
      by blast+
    from best_path_shape [OF p, of obs ?rsp ?rtp ?rep t] pth
    have len: "length ?pp = Suc t" and sub: "set ?pp \<subseteq> set states" and lst: "last ?pp = p"
      by simp_all
    from len have ne: "?pp \<noteq> []" by auto
    have nth_t: "(?pp @ [s]) ! t = p"
      using len lst ne by (simp add: nth_append last_conv_nth)
    have nth_Suc: "(?pp @ [s]) ! Suc t = s"
      using len by (simp add: nth_append)
    have pc: "fl_prefix sp tp ep obs (?pp @ [s]) t = fl_prefix sp tp ep obs ?pp t"
      by (rule fl_prefix_cong) (simp add: nth_append len)
    have "exact_prefix sp tp ep obs (?pp @ [s]) (Suc t)"
      using Suc.prems(1) len sub s by (intro exact_products_prefix [OF ex]) simp_all
    then have e1: "exact_mul (fst (fl_best obs states sp tp ep t p)) (fl_trans_of tp p s)"
      and e2: "exact_mul (float_mul (fst (fl_best obs states sp tp ep t p)) (fl_trans_of tp p s))
                 (fl_emit_of ep s (obs ! Suc t))"
      unfolding exact_prefix.simps pc nth_t nth_Suc pre [symmetric] by simp_all
    have "?F p = fl_prefix sp tp ep obs (?pp @ [s]) (Suc t)"
      unfolding fl_prefix.simps pc nth_t nth_Suc pre [symmetric] ..
    moreover from e1 e2 have "is_finite (?F p)" by (simp add: exact_mul_def)
    moreover from e1 e2 have "float_val (?F p) = ?R p"
      unfolding v [symmetric] real_trans_of [OF valid p s] real_emit_of [OF valid s ob]
      by (simp add: exact_mul_def)
    ultimately show ?thesis by simp
  qed
  have fin: "is_finite (?F p)" if "p \<in> set states" for p
    using cand [OF that] by (rule conjunct1)
  have vl: "float_val (?F p) = ?R p" if "p \<in> set states" for p
    using cand [OF that] by blast
  have pf: "?F p = fl_prefix sp tp ep obs (snd (fl_best obs states sp tp ep t p) @ [s]) (Suc t)"
    if "p \<in> set states" for p
    using cand [OF that] by blast
  from fl_best_Suc_choice [OF s, of obs sp tp ep t] obtain m q where
    mx: "fl_py_max (map (\<lambda>p. (?F p, p)) states) = Inr (m, q)"
    and q: "q \<in> set states" and m: "m = ?F q"
    and bst: "fl_best obs states sp tp ep (Suc t) s
               = (m, snd (fl_best obs states sp tp ep t q) @ [s])"
    by blast
  have "\<forall>y\<in>set (map (\<lambda>p. (?F p, p)) states). is_finite (fst y)"
    using fin by auto
  from fl_py_max_val [OF mx this]
  have "py_max (map (\<lambda>p. (float_val (?F p), p)) states) = Inr (float_val m, q)"
    by (simp add: comp_def)
  moreover have "map (\<lambda>p. (float_val (?F p), p)) states = map (\<lambda>p. (?R p, p)) states"
    using vl by simp
  ultimately have rmx: "py_max (map (\<lambda>p. (?R p, p)) states) = Inr (float_val m, q)" by simp
  have rbst: "best obs states ?rsp ?rtp ?rep (Suc t) s
      = (float_val m, snd (best obs states ?rsp ?rtp ?rep t q) @ [s])"
    using rmx by simp
  from Suc.IH [OF t q]
  have pth: "snd (fl_best obs states sp tp ep t q) = snd (best obs states ?rsp ?rtp ?rep t q)"
    by blast
  from fin [OF q] pf [OF q] m show ?case
    unfolding bst rbst fst_conv snd_conv pth [symmetric] by (simp del: fl_prefix.simps)
qed

lemma real_nonneg_tables:
  assumes valid: "fl_valid_tables obs states sp tp ep"
    and nn: "fl_nonneg_tables obs states tp ep"
  shows "nonneg_tables obs states (real_rows tp) (real_rows ep)"
  using nn real_trans_of [OF valid] real_emit_of [OF valid]
  by (simp add: nonneg_tables_def fl_nonneg_tables_def)

section \<open>The example run in floating point\<close>

text \<open>On the tables of the example run, read as floats, every stored product is the
  float that Python computes, and the result is the float nearest to 0.01344, which
  Python prints as \<^verbatim>\<open>0.01344\<close>.\<close>

lemma fl_ex_valid:
  "fl_validate_input ex_observations ex_states fl_ex_start_prob fl_ex_trans_prob fl_ex_emit_prob
     = Inr ()"
  by (simp add: fl_validate_input_def ex_observations_def ex_states_def fl_ex_start_prob_def
      fl_ex_trans_prob_def fl_ex_emit_prob_def py_assert_def subscript_def insert_commute)



lemma fl_ex_viterbi:
  "fl_viterbi ex_observations ex_states fl_ex_start_prob fl_ex_trans_prob fl_ex_emit_prob
     = Inr (Finite False 7747632510958012 (- 59), [''Sunny'', ''Rainy'', ''Rainy''])"
  unfolding fl_viterbi_def fl_ex_valid and_then_simps
  by (simp add: fl_build_tables_def ex_observations_def ex_states_def fl_ex_start_prob_def
      fl_ex_trans_prob_def fl_ex_emit_prob_def subscript_def item_def fl_init_step_def
      last_item_def fl_final_candidate_def fl_max_final_def fl_max_previous_def
      fl_time_step_def fl_state_step_def fl_candidate_def upt_rec
      round_to_double_def round_half_even_def bit_length.simps Let_def pow2_def)

lemma fl_ex_value:
  "float_val (Finite False 7747632510958012 (- 59))
     = float_val (Finite False 1936908127739503 (- 57))"
  by (simp add: pow2_def)

section \<open>The claims\<close>

text \<open>The example of the source, lines 107 to 121.\<close>

lemma ex_valid:
  "validate_input ex_observations ex_states ex_start_prob ex_trans_prob ex_emit_prob = Inr ()"
  by (simp add: validate_input_def ex_observations_def ex_states_def ex_start_prob_def
      ex_trans_prob_def ex_emit_prob_def py_assert_def subscript_def insert_commute)

lemma ex_viterbi:
  "viterbi ex_observations ex_states ex_start_prob ex_trans_prob ex_emit_prob
     = Inr (0.01344, [''Sunny'', ''Rainy'', ''Rainy''])"
  unfolding viterbi_def ex_valid and_then_simps
  by (simp add: build_tables_def ex_observations_def ex_states_def ex_start_prob_def
      ex_trans_prob_def ex_emit_prob_def subscript_def item_def init_step_def
      last_item_def final_candidate_def max_final_def max_previous_def
      time_step_def state_step_def candidate_def upt_rec numeral_eq_Suc)

text \<open>Claim C2: on the example of the source (states Rainy and Sunny, observations
  walk, shop, clean, and the three tables of lines 109 to 117) \<^verbatim>\<open>viterbi\<close> returns the
  probability 0.01344 and the path Sunny, Rainy, Rainy. The products are exact here;
  over floats the same run returns the same path and the float nearest to 0.01344
  (lemmas \<open>fl_ex_viterbi\<close> and \<open>fl_ex_value\<close>).\<close>

theorem canonical_example:
  "viterbi (PyTuple [''walk'', ''shop'', ''clean'']) (PyTuple [''Rainy'', ''Sunny''])
     [''Rainy'' \<mapsto> 0.6, ''Sunny'' \<mapsto> 0.4]
     [''Rainy'' \<mapsto> [''Rainy'' \<mapsto> 0.7, ''Sunny'' \<mapsto> 0.3],
      ''Sunny'' \<mapsto> [''Rainy'' \<mapsto> 0.4, ''Sunny'' \<mapsto> 0.6]]
     [''Rainy'' \<mapsto> [''walk'' \<mapsto> 0.1, ''shop'' \<mapsto> 0.4, ''clean'' \<mapsto> 0.5],
      ''Sunny'' \<mapsto> [''walk'' \<mapsto> 0.6, ''shop'' \<mapsto> 0.3, ''clean'' \<mapsto> 0.1]]
   = Inr (0.01344, [''Sunny'', ''Rainy'', ''Rainy''])"
  using ex_viterbi
  unfolding ex_observations_def ex_states_def ex_start_prob_def ex_trans_prob_def
    ex_emit_prob_def .

text \<open>Claim C7: for every input that passes validation and has a non-empty
  observation sequence, a path returned by \<^verbatim>\<open>viterbi\<close> is as long as the observation
  sequence; and a path is returned whenever the state sequence is not empty either.\<close>

theorem path_length:
  assumes "validate_input observations states start_prob trans_prob emit_prob = Inr ()"
    and "items observations \<noteq> []"
  shows "(\<forall>max_prob best_path.
            viterbi observations states start_prob trans_prob emit_prob
              = Inr (max_prob, best_path)
            \<longrightarrow> length best_path = length (items observations)) \<and>
         (items states \<noteq> [] \<longrightarrow>
            (\<exists>max_prob best_path.
               viterbi observations states start_prob trans_prob emit_prob
                 = Inr (max_prob, best_path)))"
proof (cases "items states = []")
  case True
  with viterbi_no_states [OF assms(1)] show ?thesis by simp
next
  case False
  from viterbi_value [OF assms False] obtain q where
    q: "q \<in> set (items states)"
    and v: "viterbi observations states start_prob trans_prob emit_prob =
             Inr (best (items observations) (items states) start_prob trans_prob emit_prob
                    (length (items observations) - 1) q)"
    by blast
  from assms(2) have "Suc (length (items observations) - 1) = length (items observations)"
    by simp
  with best_path_shape [OF q, of "items observations" start_prob trans_prob emit_prob
      "length (items observations) - 1"]
  have "length (snd (best (items observations) (items states) start_prob trans_prob emit_prob
                    (length (items observations) - 1) q)) = length (items observations)"
    by simp
  with v show ?thesis by (auto simp del: best.simps)
qed

text \<open>The example run satisfies the hypotheses of C7; its path has length 3.\<close>

theorem path_length_witness:
  "validate_input ex_observations ex_states ex_start_prob ex_trans_prob ex_emit_prob = Inr () \<and>
   items ex_observations \<noteq> [] \<and> items ex_states \<noteq> [] \<and>
   (\<exists>max_prob best_path.
      viterbi ex_observations ex_states ex_start_prob ex_trans_prob ex_emit_prob
        = Inr (max_prob, best_path) \<and> length best_path = 3)"
proof -
  have obs: "items ex_observations \<noteq> []" and sts: "items ex_states \<noteq> []"
    and len: "length (items ex_observations) = 3"
    by (simp_all add: ex_observations_def ex_states_def)
  from path_length [OF ex_valid obs] sts len show ?thesis
    using ex_valid obs by auto
qed

text \<open>Claim C4, amended: once validation passes and both the observation sequence
  and the state sequence are non-empty, \<^verbatim>\<open>viterbi\<close> returns a result: every lookup into
  the tables, the trellis and the path table is defined, and no \<^verbatim>\<open>max\<close> is taken over
  an empty collection.\<close>

theorem no_runtime_failure:
  assumes "validate_input observations states start_prob trans_prob emit_prob = Inr ()"
    and "items observations \<noteq> []" and "items states \<noteq> []"
  shows "\<exists>max_prob best_path.
           viterbi observations states start_prob trans_prob emit_prob
             = Inr (max_prob, best_path)"
proof -
  from viterbi_value [OF assms] obtain q where
    "viterbi observations states start_prob trans_prob emit_prob =
       Inr (best (items observations) (items states) start_prob trans_prob emit_prob
              (length (items observations) - 1) q)"
    by blast
  then show ?thesis by (metis prod.collapse)
qed

text \<open>The example run satisfies the hypotheses of the amended C4.\<close>

theorem no_runtime_failure_witness:
  "validate_input ex_observations ex_states ex_start_prob ex_trans_prob ex_emit_prob = Inr () \<and>
   items ex_observations \<noteq> [] \<and> items ex_states \<noteq> [] \<and>
   (\<exists>max_prob best_path.
      viterbi ex_observations ex_states ex_start_prob ex_trans_prob ex_emit_prob
        = Inr (max_prob, best_path))"
proof -
  have obs: "items ex_observations \<noteq> []" and sts: "items ex_states \<noteq> []"
    by (simp_all add: ex_observations_def ex_states_def)
  from no_runtime_failure [OF ex_valid obs sts] ex_valid obs sts show ?thesis by simp
qed

text \<open>Claim C4 as stated fails: the empty observation tuple with one state and an
  empty emission row passes validation, and \<^verbatim>\<open>observations[0]\<close> then raises
  \<open>IndexError\<close>.\<close>

theorem empty_observations_counterexample:
  "validate_input (PyTuple ([] :: string list)) (PyTuple [''Rainy''])
     [''Rainy'' \<mapsto> 1] [''Rainy'' \<mapsto> [''Rainy'' \<mapsto> 1]] [''Rainy'' \<mapsto> Map.empty] = Inr () \<and>
   viterbi (PyTuple ([] :: string list)) (PyTuple [''Rainy''])
     [''Rainy'' \<mapsto> 1] [''Rainy'' \<mapsto> [''Rainy'' \<mapsto> 1]] [''Rainy'' \<mapsto> Map.empty]
     = Inl IndexError"
  by (simp add: viterbi_def validate_input_def py_assert_def subscript_def build_tables_def
      init_step_def item_def)

text \<open>Claim C5 as stated fails: the validator accepts an empty observation tuple
  and an empty state tuple with empty tables; it has no check of emptiness.\<close>

theorem empty_input_counterexample:
  "validate_input (PyTuple ([] :: string list)) (PyTuple ([] :: string list))
     Map.empty Map.empty Map.empty = Inr ()"
  by (simp add: validate_input_def py_assert_def)

text \<open>Claim C5, amended: when the observation sequence or the state sequence is
  empty, \<^verbatim>\<open>viterbi\<close> returns no result. Either an assertion of the validator fails, or
  validation passes and the decoder raises: \<open>ValueError\<close> from \<^verbatim>\<open>max\<close> when there are
  no states, \<open>IndexError\<close> from \<^verbatim>\<open>observations[0]\<close> otherwise.\<close>

theorem empty_input_no_result:
  assumes "items observations = [] \<or> items states = []"
  shows "(\<exists>msg. validate_input observations states start_prob trans_prob emit_prob
                  = Inl (AssertionError msg) \<and>
                viterbi observations states start_prob trans_prob emit_prob
                  = Inl (AssertionError msg)) \<or>
         (validate_input observations states start_prob trans_prob emit_prob = Inr () \<and>
          viterbi observations states start_prob trans_prob emit_prob
            = Inl (if items states = [] then ValueError else IndexError))"
proof -
  from validate_input_cases [of observations states start_prob trans_prob emit_prob]
  show ?thesis
  proof
    assume ok: "validate_input observations states start_prob trans_prob emit_prob = Inr ()"
    show ?thesis
    proof (cases "items states = []")
      case True
      with viterbi_no_states [OF ok] ok show ?thesis by simp
    next
      case False
      with assms have "items observations = []" by simp
      from viterbi_no_observations [OF ok this False] ok False show ?thesis by simp
    qed
  next
    assume "\<exists>msg. validate_input observations states start_prob trans_prob emit_prob
                    = Inl (AssertionError msg)"
    then show ?thesis using viterbi_invalid by blast
  qed
qed

text \<open>The empty input satisfies the hypothesis of the amended C5.\<close>

theorem empty_input_no_result_witness:
  "items (PyTuple ([] :: string list)) = [] \<and>
   viterbi (PyTuple ([] :: string list)) (PyTuple ([] :: string list))
     Map.empty Map.empty Map.empty = Inl ValueError"
  using empty_input_no_result [of "PyTuple ([] :: string list)" "PyTuple ([] :: string list)"
      Map.empty Map.empty Map.empty]
  by (simp add: validate_input_def py_assert_def)

lemma ex_unit:
  "unit_tables (items ex_observations) (items ex_states) ex_start_prob ex_trans_prob
     ex_emit_prob"
  by (simp add: unit_tables_def ex_observations_def ex_states_def ex_start_prob_def
      ex_trans_prob_def ex_emit_prob_def start_of_def trans_of_def emit_of_def)

lemma dy_valid:
  "fl_validate_input ex_observations ex_states dy_start_prob dy_trans_prob dy_emit_prob = Inr ()"
  by (simp add: fl_validate_input_def ex_observations_def ex_states_def dy_start_prob_def
      dy_trans_prob_def dy_emit_prob_def py_assert_def subscript_def insert_commute)

lemma dy_exact:
  "exact_products (items ex_observations) (items ex_states)
     dy_start_prob dy_trans_prob dy_emit_prob"
  by (simp add: exact_products_def exact_mul_def ex_observations_def ex_states_def
      dy_start_prob_def dy_trans_prob_def dy_emit_prob_def fl_start_of_def fl_trans_of_def
      fl_emit_of_def List.n_lists.simps numeral_3_eq_3
      round_to_double_def round_half_even_def bit_length.simps Let_def pow2_def)

lemma dy_viterbi:
  "fl_viterbi ex_observations ex_states dy_start_prob dy_trans_prob dy_emit_prob
     = Inr (Finite False 9 (- 9), [''Sunny'', ''Rainy'', ''Rainy''])"
  unfolding fl_viterbi_def dy_valid and_then_simps
  by (simp add: fl_build_tables_def ex_observations_def ex_states_def dy_start_prob_def
      dy_trans_prob_def dy_emit_prob_def subscript_def item_def fl_init_step_def
      last_item_def fl_final_candidate_def fl_max_final_def fl_max_previous_def
      fl_time_step_def fl_state_step_def fl_candidate_def upt_rec
      round_to_double_def round_half_even_def bit_length.simps Let_def pow2_def)

lemma dy_nonneg:
  "fl_nonneg_tables (items ex_observations) (items ex_states) dy_trans_prob dy_emit_prob"
  by (simp add: fl_nonneg_tables_def ex_observations_def ex_states_def dy_trans_prob_def
      dy_emit_prob_def fl_trans_of_def fl_emit_of_def pow2_def)

lemma fl_neg_valid:
  "fl_validate_input neg_observations neg_states fl_neg_start_prob fl_neg_trans_prob
     fl_neg_emit_prob = Inr ()"
  by (simp add: fl_validate_input_def neg_observations_def neg_states_def fl_neg_start_prob_def
      fl_neg_trans_prob_def fl_neg_emit_prob_def py_assert_def subscript_def insert_commute)

lemma fl_neg_viterbi:
  "fl_viterbi neg_observations neg_states fl_neg_start_prob fl_neg_trans_prob fl_neg_emit_prob
     = Inr (Finite False 1 0, [''A'', ''B'', ''B''])"
  unfolding fl_viterbi_def fl_neg_valid and_then_simps
  by (simp add: fl_build_tables_def neg_observations_def neg_states_def fl_neg_start_prob_def
      fl_neg_trans_prob_def fl_neg_emit_prob_def subscript_def item_def fl_init_step_def
      last_item_def fl_final_candidate_def fl_max_final_def fl_max_previous_def
      fl_time_step_def fl_state_step_def fl_candidate_def upt_rec
      round_to_double_def round_half_even_def bit_length.simps Let_def pow2_def)

lemma fl_neg_better:
  "path_probability (real_table fl_neg_start_prob) (real_rows fl_neg_trans_prob)
     (real_rows fl_neg_emit_prob) (items neg_observations) [''B'', ''A'', ''A''] = 2"
  by (simp add: path_probability_prefix neg_observations_def prefix_probability_Suc
      prefix_probability_one fl_neg_start_prob_def fl_neg_trans_prob_def fl_neg_emit_prob_def
      start_of_def trans_of_def emit_of_def real_table_def real_rows_def pow2_def)

lemma tiny_valid:
  "fl_validate_input tiny_observations neg_states tiny_start_prob tiny_trans_prob
     fl_neg_emit_prob = Inr ()"
  by (simp add: fl_validate_input_def tiny_observations_def neg_states_def tiny_start_prob_def
      tiny_trans_prob_def fl_neg_emit_prob_def py_assert_def subscript_def insert_commute)

lemma tiny_nonneg:
  "fl_nonneg_tables (items tiny_observations) (items neg_states) tiny_trans_prob
     fl_neg_emit_prob"
  by (simp add: fl_nonneg_tables_def tiny_observations_def neg_states_def tiny_trans_prob_def
      fl_neg_emit_prob_def fl_trans_of_def fl_emit_of_def pow2_def)

lemma tiny_viterbi:
  "fl_viterbi tiny_observations neg_states tiny_start_prob tiny_trans_prob fl_neg_emit_prob
     = Inr (Finite False 0 (- 1074), [''B'', ''B''])"
  unfolding fl_viterbi_def tiny_valid and_then_simps
  by (simp add: fl_build_tables_def tiny_observations_def neg_states_def tiny_start_prob_def
      tiny_trans_prob_def fl_neg_emit_prob_def subscript_def item_def fl_init_step_def
      last_item_def fl_final_candidate_def fl_max_final_def fl_max_previous_def
      fl_time_step_def fl_state_step_def fl_candidate_def upt_rec
      round_to_double_def round_half_even_def bit_length.simps Let_def pow2_def)

lemma tiny_better:
  "path_probability (real_table tiny_start_prob) (real_rows tiny_trans_prob)
     (real_rows fl_neg_emit_prob) (items tiny_observations) [''A'', ''A''] = 1 / 2 ^ 1200"
  by (simp add: path_probability_prefix tiny_observations_def prefix_probability_Suc
      prefix_probability_one tiny_start_prob_def tiny_trans_prob_def fl_neg_emit_prob_def
      start_of_def trans_of_def emit_of_def real_table_def real_rows_def pow2_def
      numeral_2_eq_2)

text \<open>Claim C1 as stated fails, in two ways. The validator does not look at the
  values: with every transition entry \<open>-1.0\<close> the input passes validation and
  \<^verbatim>\<open>viterbi\<close> returns the probability 1.0, while the state sequence B, A, A has
  probability 2. And the products are rounded: with start entries \<open>2 ^ (-600)\<close> and
  \<open>2 ^ (-700)\<close> and every transition entry \<open>2 ^ (-600)\<close>, no entry is negative, every
  product of the second step underflows to zero, and \<^verbatim>\<open>viterbi\<close> returns the
  probability 0.0 with the path B, B, while the state sequence A, A has the probability
  \<open>2 ^ (-1200)\<close>.\<close>

theorem not_maximal_counterexample:
  "fl_validate_input neg_observations neg_states fl_neg_start_prob fl_neg_trans_prob
     fl_neg_emit_prob = Inr () \<and>
   fl_viterbi neg_observations neg_states fl_neg_start_prob fl_neg_trans_prob fl_neg_emit_prob
     = Inr (Finite False 1 0, [''A'', ''B'', ''B'']) \<and>
   float_val (Finite False 1 0) = 1 \<and>
   path_probability (real_table fl_neg_start_prob) (real_rows fl_neg_trans_prob)
     (real_rows fl_neg_emit_prob) (items neg_observations) [''B'', ''A'', ''A''] = 2 \<and>
   [''B'', ''A'', ''A'']
     \<in> set (List.n_lists (length (items neg_observations)) (items neg_states)) \<and>
   fl_validate_input tiny_observations neg_states tiny_start_prob tiny_trans_prob
     fl_neg_emit_prob = Inr () \<and>
   fl_nonneg_tables (items tiny_observations) (items neg_states) tiny_trans_prob
     fl_neg_emit_prob \<and>
   fl_viterbi tiny_observations neg_states tiny_start_prob tiny_trans_prob fl_neg_emit_prob
     = Inr (Finite False 0 (- 1074), [''B'', ''B'']) \<and>
   float_val (Finite False 0 (- 1074)) = 0 \<and>
   path_probability (real_table tiny_start_prob) (real_rows tiny_trans_prob)
     (real_rows fl_neg_emit_prob) (items tiny_observations) [''A'', ''A''] = 1 / 2 ^ 1200 \<and>
   [''A'', ''A'']
     \<in> set (List.n_lists (length (items tiny_observations)) (items neg_states))"
  using fl_neg_valid fl_neg_viterbi fl_neg_better tiny_valid tiny_nonneg tiny_viterbi
    tiny_better
  by (simp add: set_n_lists neg_observations_def tiny_observations_def neg_states_def pow2_def)

text \<open>Claim C1, amended: for every input that passes validation, with non-empty
  observation and state sequences, with transition and emission entries that are
  finite floats and not negative, and such that no product the code forms along any
  state sequence is rounded (each is a float exactly), \<^verbatim>\<open>viterbi\<close> returns a
  probability and a path; the probability is a finite float, the path is one of the
  \<open>|states| ^ |observations|\<close> state sequences (\<open>List.n_lists\<close> enumerates them), its
  probability is the one returned, and that probability is the maximum over all of
  them. Path probabilities are the exact products of the table entries.\<close>

theorem viterbi_optimal:
  assumes "fl_validate_input observations states start_prob trans_prob emit_prob = Inr ()"
    and "items observations \<noteq> []" and "items states \<noteq> []"
    and "fl_nonneg_tables (items observations) (items states) trans_prob emit_prob"
    and "exact_products (items observations) (items states) start_prob trans_prob emit_prob"
  shows "\<exists>max_prob best_path.
      fl_viterbi observations states start_prob trans_prob emit_prob
        = Inr (max_prob, best_path) \<and>
      is_finite max_prob \<and>
      best_path \<in> set (List.n_lists (length (items observations)) (items states)) \<and>
      path_probability (real_table start_prob) (real_rows trans_prob) (real_rows emit_prob)
        (items observations) best_path = float_val max_prob \<and>
      float_val max_prob
        = Max (path_probability (real_table start_prob) (real_rows trans_prob)
                 (real_rows emit_prob) (items observations)
                 ` set (List.n_lists (length (items observations)) (items states)))"
proof -
  let ?obs = "items observations" and ?sts = "items states"
  let ?T = "length ?obs - 1"
  let ?sp = "real_table start_prob" and ?tp = "real_rows trans_prob"
    and ?ep = "real_rows emit_prob"
  let ?fb = "fl_best ?obs ?sts start_prob trans_prob emit_prob ?T"
  let ?rb = "best ?obs ?sts ?sp ?tp ?ep ?T"
  from assms(1) have valid: "fl_valid_tables ?obs ?sts start_prob trans_prob emit_prob"
    by (simp add: fl_validate_input_Inr_iff)
  from assms(2) have T: "?T < length ?obs" by simp
  note sim = fl_best_exact [OF valid assms(5) T]
  have fin: "is_finite (fst (?fb s))" if "s \<in> set ?sts" for s
    using sim [OF that] by blast
  have vl: "float_val (fst (?fb s)) = fst (?rb s)" if "s \<in> set ?sts" for s
    using sim [OF that] by blast
  have pth: "snd (?fb s) = snd (?rb s)" if "s \<in> set ?sts" for s
    using sim [OF that] by blast
  from fl_viterbi_value [OF assms(1-3)] obtain q where
    q: "q \<in> set ?sts"
    and v: "fl_viterbi observations states start_prob trans_prob emit_prob = Inr (?fb q)"
    and mx: "fl_py_max (map (\<lambda>s. (fst (?fb s), s)) ?sts) = Inr (fst (?fb q), q)"
    by blast
  have "\<forall>y\<in>set (map (\<lambda>s. (fst (?fb s), s)) ?sts). is_finite (fst y)"
    using fin by auto
  from fl_py_max_val [OF mx this]
  have a: "py_max (map (\<lambda>s. (float_val (fst (?fb s)), s)) ?sts) = Inr (float_val (fst (?fb q)), q)"
    by (simp add: comp_def del: fl_best.simps)
  have meq: "map (\<lambda>s. (float_val (fst (?fb s)), s)) ?sts = map (\<lambda>s. (fst (?rb s), s)) ?sts"
    by (rule map_cong [OF refl]) (simp only: vl)
  from a have "py_max (map (\<lambda>s. (fst (?rb s), s)) ?sts) = Inr (fst (?rb q), q)"
    unfolding meq vl [OF q] .
  from py_max_InrD [OF this]
  have ub: "\<forall>s\<in>set ?sts. \<not> tuple_gt (fst (?rb s), s) (fst (?rb q), q)"
    by (simp del: best.simps)
  from best_maximum [OF real_nonneg_tables [OF valid assms(4)] assms(2) q ub]
  have "snd (?fb q) \<in> set (List.n_lists (length ?obs) ?sts)"
    and "path_probability ?sp ?tp ?ep ?obs (snd (?fb q)) = float_val (fst (?fb q))"
    and "float_val (fst (?fb q)) = Max (path_probability ?sp ?tp ?ep ?obs
                                   ` set (List.n_lists (length ?obs) ?sts))"
    unfolding pth [OF q] vl [OF q] by simp_all
  with v fin [OF q] show ?thesis
    by (metis prod.collapse)
qed

text \<open>The example run with tables of halves, quarters and eighths satisfies the
  hypotheses of the amended C1: the float returned is \<open>9 * 2 ^ (-9)\<close>, and \<open>9 / 512\<close> is
  the greatest of the eight path probabilities.\<close>

theorem viterbi_optimal_witness:
  "fl_validate_input ex_observations ex_states dy_start_prob dy_trans_prob dy_emit_prob
     = Inr () \<and>
   items ex_observations \<noteq> [] \<and> items ex_states \<noteq> [] \<and>
   fl_nonneg_tables (items ex_observations) (items ex_states) dy_trans_prob dy_emit_prob \<and>
   exact_products (items ex_observations) (items ex_states)
     dy_start_prob dy_trans_prob dy_emit_prob \<and>
   fl_viterbi ex_observations ex_states dy_start_prob dy_trans_prob dy_emit_prob
     = Inr (Finite False 9 (- 9), [''Sunny'', ''Rainy'', ''Rainy'']) \<and>
   path_probability (real_table dy_start_prob) (real_rows dy_trans_prob)
     (real_rows dy_emit_prob) (items ex_observations) [''Sunny'', ''Rainy'', ''Rainy'']
     = 9 / 512 \<and>
   Max (path_probability (real_table dy_start_prob) (real_rows dy_trans_prob)
          (real_rows dy_emit_prob) (items ex_observations)
          ` set (List.n_lists (length (items ex_observations)) (items ex_states)))
     = 9 / 512"
proof -
  have obs: "items ex_observations \<noteq> []" and sts: "items ex_states \<noteq> []"
    by (simp_all add: ex_observations_def ex_states_def)
  have v: "float_val (Finite False 9 (- 9)) = 9 / 512"
    by (simp add: pow2_def)
  from viterbi_optimal [OF dy_valid obs sts dy_nonneg dy_exact]
  obtain max_prob best_path where
    r: "fl_viterbi ex_observations ex_states dy_start_prob dy_trans_prob dy_emit_prob
          = Inr (max_prob, best_path)"
    and p: "path_probability (real_table dy_start_prob) (real_rows dy_trans_prob)
              (real_rows dy_emit_prob) (items ex_observations) best_path = float_val max_prob"
    and m: "float_val max_prob
              = Max (path_probability (real_table dy_start_prob) (real_rows dy_trans_prob)
                       (real_rows dy_emit_prob) (items ex_observations)
                       ` set (List.n_lists (length (items ex_observations)) (items ex_states)))"
    by blast
  from r have eq: "max_prob = Finite False 9 (- 9)"
    "best_path = [''Sunny'', ''Rainy'', ''Rainy'']"
    unfolding dy_viterbi by simp_all
  from p m show ?thesis
    unfolding eq v using dy_valid obs sts dy_nonneg dy_exact dy_viterbi by simp
qed

text \<open>Claim C8: for every input that passes validation and whose table entries all
  lie between 0 and 1, a probability returned by \<^verbatim>\<open>viterbi\<close> lies between 0 and 1;
  and one is returned when neither sequence is empty.\<close>

theorem probability_bound:
  assumes "validate_input observations states start_prob trans_prob emit_prob = Inr ()"
    and "unit_tables (items observations) (items states) start_prob trans_prob emit_prob"
  shows "(\<forall>max_prob best_path.
            viterbi observations states start_prob trans_prob emit_prob
              = Inr (max_prob, best_path)
            \<longrightarrow> 0 \<le> max_prob \<and> max_prob \<le> 1) \<and>
         (items observations \<noteq> [] \<and> items states \<noteq> [] \<longrightarrow>
            (\<exists>max_prob best_path.
               viterbi observations states start_prob trans_prob emit_prob
                 = Inr (max_prob, best_path)))"
proof (cases "items observations \<noteq> [] \<and> items states \<noteq> []")
  case False
  with viterbi_InrD [of observations states start_prob trans_prob emit_prob]
  show ?thesis by blast
next
  case True
  then have obs: "items observations \<noteq> []" and sts: "items states \<noteq> []" by simp_all
  let ?T = "length (items observations) - 1"
  from viterbi_value [OF assms(1) obs sts] obtain q where
    q: "q \<in> set (items states)"
    and v: "viterbi observations states start_prob trans_prob emit_prob =
             Inr (best (items observations) (items states) start_prob trans_prob emit_prob
                    ?T q)"
    by blast
  from obs have "?T < length (items observations)" by simp
  from best_unit [OF assms(2) this q] v show ?thesis
    by (auto simp del: best.simps)
qed

text \<open>The example run satisfies the hypotheses of C8.\<close>

theorem probability_bound_witness:
  "validate_input ex_observations ex_states ex_start_prob ex_trans_prob ex_emit_prob = Inr () \<and>
   unit_tables (items ex_observations) (items ex_states) ex_start_prob ex_trans_prob
     ex_emit_prob \<and>
   (\<exists>max_prob best_path.
      viterbi ex_observations ex_states ex_start_prob ex_trans_prob ex_emit_prob
        = Inr (max_prob, best_path) \<and> 0 \<le> max_prob \<and> max_prob \<le> 1)"
proof -
  have obs: "items ex_observations \<noteq> []" and sts: "items ex_states \<noteq> []"
    by (simp_all add: ex_observations_def ex_states_def)
  from probability_bound [OF ex_valid ex_unit] obs sts ex_valid ex_unit
  show ?thesis by blast
qed

text \<open>Claim C6: for each of the seven checks, an input that violates it and
  satisfies the checks before it (so in particular an input that violates exactly that
  check) makes \<^verbatim>\<open>validate_input\<close> and \<^verbatim>\<open>viterbi\<close> raise the assertion error with the
  message of that check, so no path is returned; an input that satisfies all seven
  passes validation; and the seven messages are pairwise different, so the error
  identifies the check.\<close>

theorem validation_checks:
  "(\<forall>c. \<not> holds c observations states start_prob trans_prob emit_prob \<and>
         (\<forall>c'. rank c' < rank c \<longrightarrow>
                holds c' observations states start_prob trans_prob emit_prob)
         \<longrightarrow> validate_input observations states start_prob trans_prob emit_prob
               = Inl (AssertionError (message c)) \<and>
             viterbi observations states start_prob trans_prob emit_prob
               = Inl (AssertionError (message c))) \<and>
   ((\<forall>c. holds c observations states start_prob trans_prob emit_prob)
      \<longrightarrow> validate_input observations states start_prob trans_prob emit_prob = Inr ()) \<and>
   (\<forall>c c'. message c = message c' \<longrightarrow> c = c')"
  using validate_input_first_failure [of _ observations states start_prob trans_prob emit_prob]
    validate_input_all_hold [of observations states start_prob trans_prob emit_prob]
    message_inj viterbi_invalid
  by (intro conjI allI impI) blast+

text \<open>One input for each check, violating exactly that check, and one input that
  satisfies all of them.\<close>

theorem validation_checks_witness:
  "validate_input (PyOther :: string py_seq) (PyTuple [''A''])
     [''A'' \<mapsto> 1] [''A'' \<mapsto> [''A'' \<mapsto> 1]] [''A'' \<mapsto> [''x'' \<mapsto> 1]]
     = Inl (AssertionError ''Observations must be a list or tuple.'') \<and>
   viterbi (PyTuple [''x'']) (PyOther :: string py_seq)
     [''A'' \<mapsto> 1] [''A'' \<mapsto> [''A'' \<mapsto> 1]] [''A'' \<mapsto> [''x'' \<mapsto> 1]]
     = Inl (AssertionError ''States must be a list or tuple.'') \<and>
   viterbi (PyTuple [''x'']) (PyTuple [''A''])
     Map.empty [''A'' \<mapsto> [''A'' \<mapsto> 1]] [''A'' \<mapsto> [''x'' \<mapsto> 1]]
     = Inl (AssertionError ''Start probabilities must match states.'') \<and>
   viterbi (PyTuple [''x'']) (PyTuple [''A''])
     [''A'' \<mapsto> 1] Map.empty [''A'' \<mapsto> [''x'' \<mapsto> 1]]
     = Inl (AssertionError ''Transition probabilities must match states.'') \<and>
   viterbi (PyTuple [''x'']) (PyTuple [''A''])
     [''A'' \<mapsto> 1] [''A'' \<mapsto> Map.empty] [''A'' \<mapsto> [''x'' \<mapsto> 1]]
     = Inl (AssertionError ''Transition probabilities must be defined for all states.'') \<and>
   viterbi (PyTuple [''x'']) (PyTuple [''A''])
     [''A'' \<mapsto> 1] [''A'' \<mapsto> [''A'' \<mapsto> 1]] (Map.empty :: (string, string) emit_table)
     = Inl (AssertionError ''Emission probabilities must match states.'') \<and>
   viterbi (PyTuple [''x'']) (PyTuple [''A''])
     [''A'' \<mapsto> 1] [''A'' \<mapsto> [''A'' \<mapsto> 1]] [''A'' \<mapsto> Map.empty]
     = Inl (AssertionError ''Emission probabilities must be defined for all observations.'') \<and>
   validate_input (PyTuple [''x'']) (PyTuple [''A''])
     [''A'' \<mapsto> 1] [''A'' \<mapsto> [''A'' \<mapsto> 1]] [''A'' \<mapsto> [''x'' \<mapsto> 1]]
     = Inr ()"
proof (intro conjI)
  show "validate_input (PyOther :: string py_seq) (PyTuple [''A''])
     [''A'' \<mapsto> 1] [''A'' \<mapsto> [''A'' \<mapsto> 1]] [''A'' \<mapsto> [''x'' \<mapsto> 1]]
     = Inl (AssertionError ''Observations must be a list or tuple.'')"
    using validation_checks [of "PyOther :: string py_seq" "PyTuple [''A'']"
        "[''A'' \<mapsto> 1]" "[''A'' \<mapsto> [''A'' \<mapsto> 1]]" "[''A'' \<mapsto> [''x'' \<mapsto> 1]]"]
    by (simp add: all_checks_iff inner_keys_def)
  show "viterbi (PyTuple [''x'']) (PyOther :: string py_seq)
     [''A'' \<mapsto> 1] [''A'' \<mapsto> [''A'' \<mapsto> 1]] [''A'' \<mapsto> [''x'' \<mapsto> 1]]
     = Inl (AssertionError ''States must be a list or tuple.'')"
    using validation_checks [of "PyTuple [''x'']" "PyOther :: string py_seq"
        "[''A'' \<mapsto> 1]" "[''A'' \<mapsto> [''A'' \<mapsto> 1]]" "[''A'' \<mapsto> [''x'' \<mapsto> 1]]"]
    by (simp add: all_checks_iff inner_keys_def)
  show "viterbi (PyTuple [''x'']) (PyTuple [''A''])
     Map.empty [''A'' \<mapsto> [''A'' \<mapsto> 1]] [''A'' \<mapsto> [''x'' \<mapsto> 1]]
     = Inl (AssertionError ''Start probabilities must match states.'')"
    using validation_checks [of "PyTuple [''x'']" "PyTuple [''A'']"
        Map.empty "[''A'' \<mapsto> [''A'' \<mapsto> 1]]" "[''A'' \<mapsto> [''x'' \<mapsto> 1]]"]
    by (simp add: all_checks_iff inner_keys_def)
  show "viterbi (PyTuple [''x'']) (PyTuple [''A''])
     [''A'' \<mapsto> 1] Map.empty [''A'' \<mapsto> [''x'' \<mapsto> 1]]
     = Inl (AssertionError ''Transition probabilities must match states.'')"
    using validation_checks [of "PyTuple [''x'']" "PyTuple [''A'']"
        "[''A'' \<mapsto> 1]" Map.empty "[''A'' \<mapsto> [''x'' \<mapsto> 1]]"]
    by (simp add: all_checks_iff inner_keys_def)
  show "viterbi (PyTuple [''x'']) (PyTuple [''A''])
     [''A'' \<mapsto> 1] [''A'' \<mapsto> Map.empty] [''A'' \<mapsto> [''x'' \<mapsto> 1]]
     = Inl (AssertionError ''Transition probabilities must be defined for all states.'')"
    using validation_checks [of "PyTuple [''x'']" "PyTuple [''A'']"
        "[''A'' \<mapsto> 1]" "[''A'' \<mapsto> Map.empty]" "[''A'' \<mapsto> [''x'' \<mapsto> 1]]"]
    by (simp add: all_checks_iff inner_keys_def)
  show "viterbi (PyTuple [''x'']) (PyTuple [''A''])
     [''A'' \<mapsto> 1] [''A'' \<mapsto> [''A'' \<mapsto> 1]] (Map.empty :: (string, string) emit_table)
     = Inl (AssertionError ''Emission probabilities must match states.'')"
    using validation_checks [of "PyTuple [''x'']" "PyTuple [''A'']"
        "[''A'' \<mapsto> 1]" "[''A'' \<mapsto> [''A'' \<mapsto> 1]]" "Map.empty :: (string, string) emit_table"]
    by (simp add: all_checks_iff inner_keys_def)
  show "viterbi (PyTuple [''x'']) (PyTuple [''A''])
     [''A'' \<mapsto> 1] [''A'' \<mapsto> [''A'' \<mapsto> 1]] [''A'' \<mapsto> Map.empty]
     = Inl (AssertionError ''Emission probabilities must be defined for all observations.'')"
    using validation_checks [of "PyTuple [''x'']" "PyTuple [''A'']"
        "[''A'' \<mapsto> 1]" "[''A'' \<mapsto> [''A'' \<mapsto> 1]]" "[''A'' \<mapsto> Map.empty]"]
    by (simp add: all_checks_iff inner_keys_def)
  show "validate_input (PyTuple [''x'']) (PyTuple [''A''])
     [''A'' \<mapsto> 1] [''A'' \<mapsto> [''A'' \<mapsto> 1]] [''A'' \<mapsto> [''x'' \<mapsto> 1]]
     = Inr ()"
    using validation_checks [of "PyTuple [''x'']" "PyTuple [''A'']"
        "[''A'' \<mapsto> 1]" "[''A'' \<mapsto> [''A'' \<mapsto> 1]]" "[''A'' \<mapsto> [''x'' \<mapsto> 1]]"]
    by (simp add: all_checks_iff inner_keys_def)
qed

text \<open>The run on the input where every product ties.\<close>

lemma tie_valid:
  "validate_input tie_observations tie_states tie_start_prob tie_trans_prob tie_emit_prob
     = Inr ()"
  by (simp add: validate_input_def tie_observations_def tie_states_def tie_start_prob_def
      tie_trans_prob_def tie_emit_prob_def py_assert_def subscript_def insert_commute)

lemma tie_tables:
  "build_tables (items tie_observations) (items tie_states) tie_start_prob tie_trans_prob
     tie_emit_prob = Inr (tie_V, tie_path)"
  by (simp add: build_tables_def tie_observations_def tie_states_def tie_start_prob_def
      tie_trans_prob_def tie_emit_prob_def tie_V_def tie_path_def subscript_def item_def
      init_step_def max_previous_def time_step_def state_step_def candidate_def upt_rec)

lemma tie_finals:
  "final_candidate tie_V ''A'' = Inr (1/4, ''A'')"
  "final_candidate tie_V ''B'' = Inr (1/4, ''B'')"
  by (simp_all add: final_candidate_def last_item_def subscript_def tie_V_def)

lemma tie_candidates:
  "candidate tie_V (Suc 0) tie_trans_prob tie_emit_prob (items tie_observations) ''B'' ''A''
     = Inr (1/4, ''A'')"
  "candidate tie_V (Suc 0) tie_trans_prob tie_emit_prob (items tie_observations) ''B'' ''B''
     = Inr (1/4, ''B'')"
  by (simp_all add: candidate_def item_def subscript_def tie_V_def tie_trans_prob_def
      tie_emit_prob_def tie_observations_def)

lemma tie_max_previous:
  "max_previous tie_V (Suc 0) [''A'', ''B''] tie_trans_prob tie_emit_prob (items tie_observations)
     ''B'' = Inr (1/4, ''B'')"
  "max_previous tie_V (Suc 0) [''B'', ''A''] tie_trans_prob tie_emit_prob (items tie_observations)
     ''B'' = Inr (1/4, ''B'')"
  by (simp_all add: max_previous_def tie_candidates)

lemma tie_max_final:
  "max_final tie_V [''A'', ''B''] = Inr (1/4, ''B'')"
  "max_final tie_V [''B'', ''A''] = Inr (1/4, ''B'')"
  by (simp_all add: max_final_def tie_finals)

lemma tie_viterbi:
  "viterbi tie_observations tie_states tie_start_prob tie_trans_prob tie_emit_prob
     = Inr (1/4, [''B'', ''B''])"
  unfolding viterbi_def tie_valid and_then_simps tie_tables prod.case
  by (simp add: tie_states_def tie_max_final tie_path_def subscript_def)

text \<open>Claim C9: \<^verbatim>\<open>max\<close> compares the pairs (probability, state), so among the
  previous states whose product is maximal (lines 50 to 53), and among the final states
  whose probability is maximal (line 66), the state with the greatest label is
  selected: every state with the same product has a label below or equal to the
  selected one. The position in the state sequence plays no role: two state sequences
  with the same set of states give the same result of \<^verbatim>\<open>viterbi\<close>.\<close>

theorem ties_greatest_label:
  "(max_previous V t states trans_prob emit_prob observations current_state
      = Inr (max_prob, prev_st) \<longrightarrow>
      prev_st \<in> set states \<and>
      candidate V t trans_prob emit_prob observations current_state prev_st
        = Inr (max_prob, prev_st) \<and>
      (\<forall>p\<in>set states. \<forall>v.
         candidate V t trans_prob emit_prob observations current_state p = Inr (v, p)
         \<longrightarrow> v \<le> max_prob \<and> (v = max_prob \<longrightarrow> p \<le> prev_st))) \<and>
   (max_final V states = Inr (max_prob', final_state) \<longrightarrow>
      final_state \<in> set states \<and>
      final_candidate V final_state = Inr (max_prob', final_state) \<and>
      (\<forall>s\<in>set states. \<forall>v.
         final_candidate V s = Inr (v, s)
         \<longrightarrow> v \<le> max_prob' \<and> (v = max_prob' \<longrightarrow> s \<le> final_state))) \<and>
   (is_list_or_tuple sts = is_list_or_tuple sts' \<and> set (items sts) = set (items sts') \<longrightarrow>
      viterbi obs sts start_prob trans_prob emit_prob
        = viterbi obs sts' start_prob trans_prob emit_prob)"
  using max_previous_greatest [of V t states trans_prob emit_prob observations current_state
      max_prob prev_st]
    max_final_greatest [of V states max_prob' final_state]
    viterbi_set_cong [of sts sts' obs start_prob trans_prob emit_prob]
  by blast

text \<open>On the input where every product ties, with the states listed as A, B, the
  state B is selected at time 1 and at the end; listing the states as B, A gives the
  same result.\<close>

theorem ties_greatest_label_witness:
  "max_previous tie_V (Suc 0) (items tie_states) tie_trans_prob tie_emit_prob
     (items tie_observations) ''B'' = Inr (1/4, ''B'') \<and>
   candidate tie_V (Suc 0) tie_trans_prob tie_emit_prob (items tie_observations) ''B'' ''A''
     = Inr (1/4, ''A'') \<and>
   max_final tie_V (items tie_states) = Inr (1/4, ''B'') \<and>
   final_candidate tie_V ''A'' = Inr (1/4, ''A'') \<and>
   ''A'' \<le> ''B'' \<and>
   viterbi tie_observations (PyList [''B'', ''A'']) tie_start_prob tie_trans_prob tie_emit_prob
     = Inr (1/4, [''B'', ''B''])"
proof -
  have sel: "max_previous tie_V (Suc 0) (items tie_states) tie_trans_prob tie_emit_prob
     (items tie_observations) ''B'' = Inr (1/4, ''B'')"
    and fin: "max_final tie_V (items tie_states) = Inr (1/4, ''B'')"
    by (simp_all add: tie_states_def tie_max_previous tie_max_final)
  have A: "''A'' \<in> set (items tie_states)" by (simp add: tie_states_def)
  from ties_greatest_label [of tie_V "Suc 0" "items tie_states" tie_trans_prob tie_emit_prob
      "items tie_observations" "''B''" "1/4" "''B''" "1/4" "''B''"
      "PyList [''B'', ''A'']" tie_states tie_observations tie_start_prob]
    sel fin
  have le: "\<forall>s\<in>set (items tie_states). \<forall>v.
         final_candidate tie_V s = Inr (v, s) \<longrightarrow> v \<le> 1/4 \<and> (v = 1/4 \<longrightarrow> s \<le> ''B'')"
    and eq: "is_list_or_tuple (PyList [''B'', ''A'']) = is_list_or_tuple tie_states \<and>
       set (items (PyList [''B'', ''A''])) = set (items tie_states) \<longrightarrow>
       viterbi tie_observations (PyList [''B'', ''A'']) tie_start_prob tie_trans_prob
         tie_emit_prob
       = viterbi tie_observations tie_states tie_start_prob tie_trans_prob tie_emit_prob"
    by blast+
  from le A tie_finals(1) have "''A'' \<le> ''B''" by blast
  moreover from eq have "viterbi tie_observations (PyList [''B'', ''A'']) tie_start_prob
      tie_trans_prob tie_emit_prob = Inr (1/4, [''B'', ''B''])"
    by (simp add: tie_states_def tie_viterbi [unfolded tie_states_def] insert_commute)
  ultimately show ?thesis using sel fin tie_finals(1) tie_candidates(1) by simp
qed

text \<open>Claim C3 as stated fails: with the states listed as A, B and every product
  tied, the previous state selected for B at time 1 is B and the final state selected
  is B, although A occurs earlier in the sequence and ties; the path returned is B, B,
  not A, A.\<close>

theorem earliest_tie_counterexample:
  "items tie_states = [''A'', ''B''] \<and>
   build_tables (items tie_observations) (items tie_states) tie_start_prob tie_trans_prob
     tie_emit_prob = Inr (tie_V, tie_path) \<and>
   candidate tie_V (Suc 0) tie_trans_prob tie_emit_prob (items tie_observations) ''B'' ''A''
     = Inr (1/4, ''A'') \<and>
   candidate tie_V (Suc 0) tie_trans_prob tie_emit_prob (items tie_observations) ''B'' ''B''
     = Inr (1/4, ''B'') \<and>
   max_previous tie_V (Suc 0) (items tie_states) tie_trans_prob tie_emit_prob
     (items tie_observations) ''B'' = Inr (1/4, ''B'') \<and>
   final_candidate tie_V ''A'' = Inr (1/4, ''A'') \<and>
   final_candidate tie_V ''B'' = Inr (1/4, ''B'') \<and>
   max_final tie_V (items tie_states) = Inr (1/4, ''B'') \<and>
   viterbi tie_observations tie_states tie_start_prob tie_trans_prob tie_emit_prob
     = Inr (1/4, [''B'', ''B''])"
  using tie_tables tie_candidates tie_finals tie_viterbi
  by (simp add: tie_states_def tie_max_previous tie_max_final)

text \<open>Claim C3, amended: when the state sequence is listed in descending label
  order, the state selected among tying previous states, and among tying final
  states, is the one that occurs earliest in the sequence: every state before it has a
  strictly smaller product. (In general the greatest label wins, see C9.)\<close>

theorem ties_earliest_if_descending:
  assumes "sorted (rev states)"
  shows "(max_previous V t states trans_prob emit_prob observations current_state
            = Inr (max_prob, prev_st) \<longrightarrow>
          (\<exists>i<length states. states ! i = prev_st \<and>
             candidate V t trans_prob emit_prob observations current_state (states ! i)
               = Inr (max_prob, prev_st) \<and>
             (\<forall>j<i. \<forall>v.
                candidate V t trans_prob emit_prob observations current_state (states ! j)
                  = Inr (v, states ! j) \<longrightarrow> v < max_prob))) \<and>
         (max_final V states = Inr (max_prob', final_state) \<longrightarrow>
          (\<exists>i<length states. states ! i = final_state \<and>
             final_candidate V (states ! i) = Inr (max_prob', final_state) \<and>
             (\<forall>j<i. \<forall>v.
                final_candidate V (states ! j) = Inr (v, states ! j) \<longrightarrow> v < max_prob')))"
proof (intro conjI impI)
  assume sel: "max_previous V t states trans_prob emit_prob observations current_state
            = Inr (max_prob, prev_st)"
  from max_previous_greatest [OF sel]
  have q: "prev_st \<in> set states"
    and c: "candidate V t trans_prob emit_prob observations current_state prev_st
              = Inr (max_prob, prev_st)"
    and ub: "\<forall>p\<in>set states. \<forall>v.
         candidate V t trans_prob emit_prob observations current_state p = Inr (v, p)
         \<longrightarrow> v \<le> max_prob \<and> (v = max_prob \<longrightarrow> p \<le> prev_st)"
    by blast+
  from first_of_descending [OF assms q ub] c
  show "\<exists>i<length states. states ! i = prev_st \<and>
             candidate V t trans_prob emit_prob observations current_state (states ! i)
               = Inr (max_prob, prev_st) \<and>
             (\<forall>j<i. \<forall>v.
                candidate V t trans_prob emit_prob observations current_state (states ! j)
                  = Inr (v, states ! j) \<longrightarrow> v < max_prob)"
    by auto
next
  assume sel: "max_final V states = Inr (max_prob', final_state)"
  from max_final_greatest [OF sel]
  have q: "final_state \<in> set states"
    and c: "final_candidate V final_state = Inr (max_prob', final_state)"
    and ub: "\<forall>s\<in>set states. \<forall>v.
         final_candidate V s = Inr (v, s)
         \<longrightarrow> v \<le> max_prob' \<and> (v = max_prob' \<longrightarrow> s \<le> final_state)"
    by blast+
  from first_of_descending [OF assms q ub] c
  show "\<exists>i<length states. states ! i = final_state \<and>
             final_candidate V (states ! i) = Inr (max_prob', final_state) \<and>
             (\<forall>j<i. \<forall>v.
                final_candidate V (states ! j) = Inr (v, states ! j) \<longrightarrow> v < max_prob')"
    by auto
qed

text \<open>The states listed as B, A are in descending order; B is selected and is the
  earliest.\<close>

theorem ties_earliest_if_descending_witness:
  "sorted (rev [''B'', ''A'']) \<and>
   max_previous tie_V (Suc 0) [''B'', ''A''] tie_trans_prob tie_emit_prob
     (items tie_observations) ''B'' = Inr (1/4, ''B'') \<and>
   max_final tie_V [''B'', ''A''] = Inr (1/4, ''B'') \<and>
   (\<exists>i<length [''B'', ''A'']. [''B'', ''A''] ! i = ''B'' \<and>
      final_candidate tie_V ([''B'', ''A''] ! i) = Inr (1/4, ''B'') \<and>
      (\<forall>j<i. \<forall>v. final_candidate tie_V ([''B'', ''A''] ! j) = Inr (v, [''B'', ''A''] ! j)
          \<longrightarrow> v < 1/4))"
proof -
  have desc: "sorted (rev [''B'', ''A''])" by simp
  from ties_earliest_if_descending [OF desc, of tie_V "Suc 0" tie_trans_prob tie_emit_prob
      "items tie_observations" "''B''" "1/4" "''B''" "1/4" "''B''"]
    tie_max_previous(2) tie_max_final(2) desc
  show ?thesis by blast
qed

text \<open>Claim C10: whatever the five arguments refer to, and whether the call
  returns or raises, the store after a call of \<^verbatim>\<open>viterbi\<close> begins with the store before
  the call: every object that existed before the call, so the five arguments and the
  rows their tables refer to, is unchanged. All writes go to objects the call creates
  (the list \<^verbatim>\<open>V\<close>, its layers and the path tables). And on a store that holds
  arguments of the documented kinds, the call returns or raises exactly what the first
  model does on the values these arguments hold.\<close>

theorem inputs_unchanged:
  "take (length h)
     (snd (st_viterbi observations states start_prob trans_prob emit_prob h)) = h \<and>
   (represents h observations states start_prob trans_prob emit_prob obs sts sp tp ep \<longrightarrow>
      fst (st_viterbi observations states start_prob trans_prob emit_prob h)
        = viterbi (PyList obs) (PyList sts) sp tp ep)"
  using st_viterbi_unchanged [of h observations states start_prob trans_prob emit_prob]
    st_viterbi_refines_aux [of h observations states start_prob trans_prob emit_prob
      obs sts sp tp ep]
  by (simp add: unchanged_def)

text \<open>The example of the source as a store: the call returns the result of C2 and
  the nine objects of the arguments are as before.\<close>

theorem inputs_unchanged_witness:
  "represents ex_store 0 1 2 3 4 (items ex_observations) (items ex_states)
     ex_start_prob ex_trans_prob ex_emit_prob \<and>
   fst (st_viterbi 0 1 2 3 4 ex_store) = Inr (0.01344, [''Sunny'', ''Rainy'', ''Rainy'']) \<and>
   take 9 (snd (st_viterbi 0 1 2 3 4 ex_store)) = ex_store"
proof -
  have len: "length ex_store = 9" by (simp add: ex_store_def)
  have v: "viterbi (PyList (items ex_observations)) (PyList (items ex_states))
             ex_start_prob ex_trans_prob ex_emit_prob
           = Inr (0.01344, [''Sunny'', ''Rainy'', ''Rainy''])"
    unfolding viterbi_list_tuple using ex_viterbi
    by (simp add: ex_observations_def ex_states_def)
  from inputs_unchanged [of ex_store 0 1 2 3 4 "items ex_observations" "items ex_states"
      ex_start_prob ex_trans_prob ex_emit_prob] ex_store_represents v len
  show ?thesis by simp
qed

end
